theory Spec2Isabelle
  imports Complex_Main "HOL-Library.Word" "HOL-Library.Signed_Division"
    "HOL-Library.Product_Lexorder"
begin

unbundle bit_operations_syntax

chapter \<open>The program\<close>

section \<open>Failures of the engine's assertions\<close>

text \<open>
  \<open>check(...)\<close> is the engine's assertion macro and the array templates guard every
  index with it. A failed assertion stops the call; the model returns it as a value
  instead of a result.
\<close>

datatype check_failure = CheckFailed

section \<open>Binary search (Algo::LowerBound, Algo::UpperBound)\<close>

text \<open>
  Modelled from the spec: the binary-search templates \<open>Algo::LowerBound\<close>,
  \<open>Algo::UpperBound\<close> and \<open>Algo::LowerBoundBy\<close> of the engine's core library, which
  is outside the files at hand. The search halves the range \<open>[Start, Start + Size)\<close>
  until it is empty. \<open>IsBefore\<close> tells whether an element still lies before the position
  looked for: for a lower bound, whether the element is less than the value; for an
  upper bound, whether the value is not less than the element.
\<close>

function LowerBoundInternal :: "('a \<Rightarrow> bool) \<Rightarrow> 'a list \<Rightarrow> nat \<Rightarrow> nat \<Rightarrow> nat" where
  "LowerBoundInternal IsBefore First Start Size =
     (if 0 < Size then
        (let LeftoverSize = Size mod 2;
             HalfSize = Size div 2;
             CheckIndex = Start + HalfSize;
             StartIfLess = CheckIndex + LeftoverSize
         in LowerBoundInternal IsBefore First
              (if IsBefore (First ! CheckIndex) then StartIfLess else Start) HalfSize)
      else Start)"
  by pat_completeness auto
termination
  by (relation "measure (\<lambda>(IsBefore, First, Start, Size). Size)") auto

declare LowerBoundInternal.simps [simp del]

definition LowerBoundBy :: "'a list \<Rightarrow> 'v \<Rightarrow> ('a \<Rightarrow> 'k) \<Rightarrow> ('k \<Rightarrow> 'v \<Rightarrow> bool) \<Rightarrow> nat" where
  "LowerBoundBy Elements Value Projection SortPredicate =
     LowerBoundInternal (\<lambda>x. SortPredicate (Projection x) Value) Elements 0 (length Elements)"

definition LowerBound :: "('a :: linorder) list \<Rightarrow> 'a \<Rightarrow> nat" where
  "LowerBound Elements Value = LowerBoundInternal (\<lambda>x. x < Value) Elements 0 (length Elements)"

definition UpperBound :: "('a :: linorder) list \<Rightarrow> 'a \<Rightarrow> nat" where
  "UpperBound Elements Value = LowerBoundInternal (\<lambda>x. \<not> Value < x) Elements 0 (length Elements)"

text \<open>
  What a search is to find: \<open>r\<close> splits the list into the elements that lie before
  the position and those that do not.
\<close>

definition is_lower_bound :: "('a \<Rightarrow> bool) \<Rightarrow> 'a list \<Rightarrow> nat \<Rightarrow> bool" where
  "is_lower_bound P xs r =
     (r \<le> length xs \<and> (\<forall>i<r. P (xs ! i)) \<and> (\<forall>i. r \<le> i \<longrightarrow> i < length xs \<longrightarrow> \<not> P (xs ! i)))"

definition prefix_closed :: "('a \<Rightarrow> bool) \<Rightarrow> 'a list \<Rightarrow> bool" where
  "prefix_closed P xs = (\<forall>i j. i \<le> j \<longrightarrow> j < length xs \<longrightarrow> P (xs ! j) \<longrightarrow> P (xs ! i))"

text \<open>\<open>TArray::Insert\<close> of one element at an index.\<close>

definition Insert :: "'a \<Rightarrow> nat \<Rightarrow> 'a list \<Rightarrow> 'a list" where
  "Insert x i xs = take i xs @ x # drop i xs"

section \<open>Vulkan descriptor binding kinds (VulkanCommon.h)\<close>

text \<open>
  The enumeration \<open>EVulkanBindingType::EType\<close>, in declaration order, with its
  terminating \<open>Count\<close> member.
\<close>

datatype EType =
    PackedUniformBuffer
  | UniformBuffer
  | CombinedImageSampler
  | Sampler
  | Image
  | UniformTexelBuffer
  | StorageImage
  | StorageTexelBuffer
  | StorageBuffer
  | InputAttachment
  | Count

text \<open>
  The macro \<open>check\<close> is defined by the core library outside the files at hand. A
  build that compiles checks in (\<open>DO_CHECK\<close>) ends the run in a failed assertion when
  the condition is false; a build that compiles them out, as the shipping
  configuration does, expands the macro to nothing. \<open>DO_CHECK\<close> is a parameter.
\<close>

definition check :: "bool \<Rightarrow> bool \<Rightarrow> check_failure + unit" where
  "check DO_CHECK expr = (if DO_CHECK \<and> \<not> expr then Inl CheckFailed else Inr ())"

text \<open>
  The \<open>default:\<close> branch of the switch runs \<open>check(0)\<close> and leaves the switch; the
  statement after the switch returns the character with code 0.
\<close>

fun GetBindingTypeChar :: "bool \<Rightarrow> EType \<Rightarrow> check_failure + char" where
  "GetBindingTypeChar DO_CHECK UniformBuffer = Inr CHR ''b''"
| "GetBindingTypeChar DO_CHECK CombinedImageSampler = Inr CHR ''c''"
| "GetBindingTypeChar DO_CHECK Sampler = Inr CHR ''p''"
| "GetBindingTypeChar DO_CHECK Image = Inr CHR ''w''"
| "GetBindingTypeChar DO_CHECK UniformTexelBuffer = Inr CHR ''x''"
| "GetBindingTypeChar DO_CHECK StorageImage = Inr CHR ''y''"
| "GetBindingTypeChar DO_CHECK StorageTexelBuffer = Inr CHR ''z''"
| "GetBindingTypeChar DO_CHECK StorageBuffer = Inr CHR ''v''"
| "GetBindingTypeChar DO_CHECK InputAttachment = Inr CHR ''a''"
| "GetBindingTypeChar DO_CHECK _ =
     (case check DO_CHECK False of
        Inl failure \<Rightarrow> Inl failure
      | Inr _ \<Rightarrow> Inr (CHR 0x00))"

text \<open>The kinds that the specification lists with a character of their own.\<close>

definition listed_kinds :: "EType list" where
  "listed_kinds = [UniformBuffer, CombinedImageSampler, Sampler, Image, UniformTexelBuffer,
     StorageImage, StorageTexelBuffer, StorageBuffer, InputAttachment]"

section \<open>Byte property track editor (BytePropertyTrackEditor.cpp)\<close>

text \<open>
  Names and enum types are identified by their names; an object handle is the binding's
  identifier. A reflected property is an enum property (with the enum it returns from
  \<open>GetEnum()\<close>), a byte property (with its \<open>Enum\<close> member) or a property of another
  kind; both enum pointers may be null.
\<close>

type_synonym FName = string
type_synonym UEnum = string
type_synonym ObjectHandle = nat

datatype FProperty =
    FEnumProperty "UEnum option"
  | FByteProperty "UEnum option"
  | FOtherProperty

text \<open>A live object, reduced to the property list of its class.\<close>

record UObject =
  ClassProperties :: "(FName \<times> FProperty) list"

definition FindPropertyByName :: "UObject \<Rightarrow> FName \<Rightarrow> FProperty option" where
  "FindPropertyByName RuntimeObject PropertyName =
     map_of (ClassProperties RuntimeObject) PropertyName"

text \<open>
  \<open>TSet::Add\<close> keeps one copy of each element; the set is held as the list of its
  elements in the order they arrived, which is the order \<open>Array()\<close> returns.
\<close>

definition TSet_Add :: "'a \<Rightarrow> 'a list \<Rightarrow> 'a list" where
  "TSet_Add x s = (if x \<in> set s then s else s @ [x])"

text \<open>The two casts of the loop body: which enum a property carries.\<close>

definition PropertyEnum :: "FProperty \<Rightarrow> UEnum option" where
  "PropertyEnum FoundProperty =
     (case FoundProperty of
        FEnumProperty e \<Rightarrow> e
      | FByteProperty e \<Rightarrow> e
      | FOtherProperty \<Rightarrow> None)"

text \<open>
  One round of the loop over the bound objects. A weak pointer whose object is gone
  (\<open>None\<close>) is skipped, as is an object without the property and a property without
  an enum.
\<close>

definition CollectEnum :: "FName \<Rightarrow> UObject option \<Rightarrow> UEnum list \<Rightarrow> UEnum list" where
  "CollectEnum PropertyName WeakObject PropertyEnums =
     (case WeakObject of
        None \<Rightarrow> PropertyEnums
      | Some RuntimeObject \<Rightarrow>
          (case FindPropertyByName RuntimeObject PropertyName of
             None \<Rightarrow> PropertyEnums
           | Some FoundProperty \<Rightarrow>
               (case PropertyEnum FoundProperty of
                  None \<Rightarrow> PropertyEnums
                | Some FoundEnum \<Rightarrow> TSet_Add FoundEnum PropertyEnums)))"

record ISequencer =
  FindObjectsInCurrentSequence :: "ObjectHandle \<Rightarrow> UObject option list"

definition GetEnumForByteTrack :: "ISequencer \<Rightarrow> ObjectHandle \<Rightarrow> FName \<Rightarrow> UEnum option" where
  "GetEnumForByteTrack Sequencer OwnerObjectHandle PropertyName =
     (let PropertyEnums =
            fold (CollectEnum PropertyName)
              (FindObjectsInCurrentSequence Sequencer OwnerObjectHandle) []
      in if length PropertyEnums = 1 then Some (PropertyEnums ! 0) else None)"

record UMovieSceneByteTrack =
  Enum :: "UEnum option"

text \<open>
  \<open>AddTrack\<close>: \<open>NewTrack\<close> is the track that the base editor's \<open>AddTrack\<close> has just
  created; \<open>SetEnum\<close> is called on it only for a non-null result.
\<close>

definition AddTrack ::
  "ISequencer \<Rightarrow> UMovieSceneByteTrack \<Rightarrow> ObjectHandle \<Rightarrow> FName \<Rightarrow> UMovieSceneByteTrack" where
  "AddTrack Sequencer NewTrack Handle UniqueTypeName =
     (case GetEnumForByteTrack Sequencer Handle UniqueTypeName of
        Some TrackEnum \<Rightarrow> NewTrack\<lparr>Enum := Some TrackEnum\<rparr>
      | None \<Rightarrow> NewTrack)"

text \<open>
  The specification's side of the claim: the enum type one bound instance contributes,
  and the set of distinct enum types found across all instances.
\<close>

definition instance_enum :: "FName \<Rightarrow> UObject option \<Rightarrow> UEnum option" where
  "instance_enum PropertyName WeakObject =
     (case WeakObject of
        None \<Rightarrow> None
      | Some obj \<Rightarrow>
          (case map_of (ClassProperties obj) PropertyName of
             Some (FEnumProperty (Some e)) \<Rightarrow> Some e
           | Some (FByteProperty (Some e)) \<Rightarrow> Some e
           | _ \<Rightarrow> None))"

definition discovered_enums :: "ISequencer \<Rightarrow> ObjectHandle \<Rightarrow> FName \<Rightarrow> UEnum set" where
  "discovered_enums Sequencer h PropertyName =
     set (List.map_filter (instance_enum PropertyName) (FindObjectsInCurrentSequence Sequencer h))"

text \<open>Two bindings to try the editor on: instances that agree, and instances that do not.\<close>

definition actor :: "FProperty \<Rightarrow> UObject" where
  "actor p = \<lparr>ClassProperties = [(''Mobility'', p)]\<rparr>"

definition agreeing_binding :: ISequencer where
  "agreeing_binding = \<lparr>FindObjectsInCurrentSequence = (\<lambda>h.
      [Some (actor (FEnumProperty (Some ''EMobility''))), None,
       Some (actor (FByteProperty (Some ''EMobility'')))])\<rparr>"

definition mixed_binding :: ISequencer where
  "mixed_binding = \<lparr>FindObjectsInCurrentSequence = (\<lambda>h.
      [Some (actor (FEnumProperty (Some ''EMobility''))),
       Some (actor (FByteProperty (Some ''ECollision'')))])\<rparr>"

section \<open>Timeline node (K2Node_Timeline.cpp)\<close>

datatype EEdGraphPinDirection = EGPD_Input | EGPD_Output

datatype PinCategory = PC_Exec | PC_Float | PC_Byte | PC_Struct

text \<open>The objects handed to \<open>CreatePin\<close> as the sub-category of a pin.\<close>

datatype PinSubCategoryObject = TimelineDirectionEnum | VectorStruct | LinearColorStruct

record UEdGraphPin =
  Direction :: EEdGraphPinDirection
  Category :: PinCategory
  SubCategoryObject :: "PinSubCategoryObject option"
  PinName :: FName
  AutogeneratedDefaultValue :: string

record UTimelineTemplate =
  FloatTracks :: "FName list"
  VectorTracks :: "FName list"
  LinearColorTracks :: "FName list"
  EventTracks :: "FName list"
  tpl_bAutoPlay :: bool
  tpl_bLoop :: bool
  tpl_bReplicated :: bool
  tpl_bIgnoreTimeDilation :: bool

text \<open>
  The tracks of a template are kept by their names, which is all that
  \<open>AllocateDefaultPins\<close> reads of them (\<open>GetTrackName()\<close>).
\<close>

record UBlueprint =
  Timelines :: "(FName \<times> UTimelineTemplate) list"

definition FindTimelineTemplateByVariableName :: "UBlueprint \<Rightarrow> FName \<Rightarrow> UTimelineTemplate option" where
  "FindTimelineTemplateByVariableName Blueprint TimelineName = map_of (Timelines Blueprint) TimelineName"

record UK2Node_Timeline =
  Pins :: "UEdGraphPin list"
  TimelineName :: FName
  bCanRenameNode :: bool
  bAutoPlay :: bool
  bLoop :: bool
  bReplicated :: bool
  bIgnoreTimeDilation :: bool

text \<open>
  Modelled from the spec: \<open>UEdGraphNode::CreatePin\<close>, declared by the graph node base
  class outside the files at hand. Each call creates one pin of the given direction,
  category, sub-category object and name and appends it to the node's pins.
\<close>

definition CreatePin ::
  "EEdGraphPinDirection \<Rightarrow> PinCategory \<Rightarrow> PinSubCategoryObject option \<Rightarrow> FName
     \<Rightarrow> UK2Node_Timeline \<Rightarrow> UK2Node_Timeline" where
  "CreatePin Dir Cat Sub Name Node =
     Node\<lparr>Pins := Pins Node @
       [\<lparr>Direction = Dir, Category = Cat, SubCategoryObject = Sub, PinName = Name,
         AutogeneratedDefaultValue = ''''\<rparr>]\<rparr>"

text \<open>
  Modelled from the spec: \<open>SetPinAutogeneratedDefaultValue\<close> of the K2 schema, called
  on the pin that the preceding \<open>CreatePin\<close> returned, the last one of the node.
\<close>

definition SetPinAutogeneratedDefaultValue :: "string \<Rightarrow> UK2Node_Timeline \<Rightarrow> UK2Node_Timeline" where
  "SetPinAutogeneratedDefaultValue Val Node =
     (if Pins Node = [] then Node
      else Node\<lparr>Pins := butlast (Pins Node) @ [(last (Pins Node))\<lparr>AutogeneratedDefaultValue := Val\<rparr>]\<rparr>)"

definition PlayPinName :: FName where "PlayPinName = ''Play''"
definition PlayFromStartPinName :: FName where "PlayFromStartPinName = ''PlayFromStart''"
definition StopPinName :: FName where "StopPinName = ''Stop''"
definition UpdatePinName :: FName where "UpdatePinName = ''Update''"
definition ReversePinName :: FName where "ReversePinName = ''Reverse''"
definition ReverseFromEndPinName :: FName where "ReverseFromEndPinName = ''ReverseFromEnd''"
definition FinishedPinName :: FName where "FinishedPinName = ''Finished''"
definition NewTimePinName :: FName where "NewTimePinName = ''NewTime''"
definition SetNewTimePinName :: FName where "SetNewTimePinName = ''SetNewTime''"
definition DirectionPinName :: FName where "DirectionPinName = ''Direction''"

text \<open>
  \<open>AllocateDefaultPins\<close>. \<open>GetBlueprint()\<close> is the argument \<open>Blueprint\<close>, null when
  \<open>None\<close>, and \<open>check(Blueprint)\<close> fails on it. The closing call of the base class,
  \<open>Super::AllocateDefaultPins()\<close>, is the parameter \<open>Super\<close>.
\<close>

definition AllocateDefaultPins ::
  "(UK2Node_Timeline \<Rightarrow> UK2Node_Timeline) \<Rightarrow> UBlueprint option \<Rightarrow> UK2Node_Timeline
     \<Rightarrow> check_failure + UK2Node_Timeline" where
  "AllocateDefaultPins Super Blueprint Node =
     (let n0 = Node\<lparr>bCanRenameNode := True\<rparr>;
          n1 = CreatePin EGPD_Input PC_Exec None PlayPinName n0;
          n2 = CreatePin EGPD_Input PC_Exec None PlayFromStartPinName n1;
          n3 = CreatePin EGPD_Input PC_Exec None StopPinName n2;
          n4 = CreatePin EGPD_Input PC_Exec None ReversePinName n3;
          n5 = CreatePin EGPD_Input PC_Exec None ReverseFromEndPinName n4;
          n6 = CreatePin EGPD_Output PC_Exec None UpdatePinName n5;
          n7 = CreatePin EGPD_Output PC_Exec None FinishedPinName n6;
          n8 = CreatePin EGPD_Input PC_Exec None SetNewTimePinName n7;
          n9 = SetPinAutogeneratedDefaultValue ''0.0''
                 (CreatePin EGPD_Input PC_Float None NewTimePinName n8);
          n10 = CreatePin EGPD_Output PC_Byte (Some TimelineDirectionEnum) DirectionPinName n9
      in case Blueprint of
           None \<Rightarrow> Inl CheckFailed
         | Some bp \<Rightarrow>
             (case FindTimelineTemplateByVariableName bp (TimelineName n10) of
                None \<Rightarrow> Inr (Super n10)
              | Some Timeline \<Rightarrow>
                  (let f = fold (CreatePin EGPD_Output PC_Float None) (FloatTracks Timeline) n10;
                       v = fold (CreatePin EGPD_Output PC_Struct (Some VectorStruct))
                             (VectorTracks Timeline) f;
                       c = fold (CreatePin EGPD_Output PC_Struct (Some LinearColorStruct))
                             (LinearColorTracks Timeline) v;
                       e = fold (CreatePin EGPD_Output PC_Exec None) (EventTracks Timeline) c
                   in Inr (Super (e\<lparr>bAutoPlay := tpl_bAutoPlay Timeline,
                                    bLoop := tpl_bLoop Timeline,
                                    bReplicated := tpl_bReplicated Timeline,
                                    bIgnoreTimeDilation := tpl_bIgnoreTimeDilation Timeline\<rparr>)))))"

text \<open>The pins named in the claim, for stating it.\<close>

definition pin :: "EEdGraphPinDirection \<Rightarrow> PinCategory \<Rightarrow> PinSubCategoryObject option \<Rightarrow> FName
    \<Rightarrow> UEdGraphPin" where
  "pin Dir Cat Sub Name =
     \<lparr>Direction = Dir, Category = Cat, SubCategoryObject = Sub, PinName = Name,
      AutogeneratedDefaultValue = ''''\<rparr>"

definition fixed_pins :: "UEdGraphPin list" where
  "fixed_pins =
     [pin EGPD_Input PC_Exec None ''Play'',
      pin EGPD_Input PC_Exec None ''PlayFromStart'',
      pin EGPD_Input PC_Exec None ''Stop'',
      pin EGPD_Input PC_Exec None ''Reverse'',
      pin EGPD_Input PC_Exec None ''ReverseFromEnd'',
      pin EGPD_Output PC_Exec None ''Update'',
      pin EGPD_Output PC_Exec None ''Finished'',
      pin EGPD_Input PC_Exec None ''SetNewTime'',
      (pin EGPD_Input PC_Float None ''NewTime'')\<lparr>AutogeneratedDefaultValue := ''0.0''\<rparr>,
      pin EGPD_Output PC_Byte (Some TimelineDirectionEnum) ''Direction'']"

definition track_pins :: "UTimelineTemplate \<Rightarrow> UEdGraphPin list" where
  "track_pins T =
     map (pin EGPD_Output PC_Float None) (FloatTracks T)
     @ map (pin EGPD_Output PC_Struct (Some VectorStruct)) (VectorTracks T)
     @ map (pin EGPD_Output PC_Struct (Some LinearColorStruct)) (LinearColorTracks T)
     @ map (pin EGPD_Output PC_Exec None) (EventTracks T)"

definition is_exec_input :: "UEdGraphPin \<Rightarrow> bool" where
  "is_exec_input p = (Direction p = EGPD_Input \<and> Category p = PC_Exec)"

definition is_exec_output :: "UEdGraphPin \<Rightarrow> bool" where
  "is_exec_output p = (Direction p = EGPD_Output \<and> Category p = PC_Exec)"

text \<open>A node and blueprints to run the function on.\<close>

definition fresh_node :: UK2Node_Timeline where
  "fresh_node = \<lparr>Pins = [], TimelineName = ''Timeline_0'', bCanRenameNode = False,
     bAutoPlay = False, bLoop = False, bReplicated = False, bIgnoreTimeDilation = False\<rparr>"

definition trackless_template :: UTimelineTemplate where
  "trackless_template = \<lparr>FloatTracks = [], VectorTracks = [], LinearColorTracks = [],
     EventTracks = [], tpl_bAutoPlay = False, tpl_bLoop = False, tpl_bReplicated = False,
     tpl_bIgnoreTimeDilation = False\<rparr>"

definition door_template :: UTimelineTemplate where
  "door_template = \<lparr>FloatTracks = [''Alpha''], VectorTracks = [''Offset''],
     LinearColorTracks = [], EventTracks = [''Opened'', ''Closed''], tpl_bAutoPlay = True,
     tpl_bLoop = False, tpl_bReplicated = False, tpl_bIgnoreTimeDilation = False\<rparr>"

definition blueprint_with :: "UTimelineTemplate \<Rightarrow> UBlueprint" where
  "blueprint_with T = \<lparr>Timelines = [(''Timeline_0'', T)]\<rparr>"

section \<open>Frame trace events (MiscTrace.cpp)\<close>

datatype ETraceFrameType = TraceFrameType_Game | TraceFrameType_Rendering

text \<open>The four frame events and a record of the frame channel with its attachment.\<close>

datatype FrameEvent = BeginGameFrame | EndGameFrame | BeginRenderFrame | EndRenderFrame

record TraceRecord =
  Event :: FrameEvent
  Attachment :: "8 word list"

text \<open>
  The state the two functions touch: the static array
  \<open>FMiscTraceInternal::LastFrameCycle\<close>, one cell per frame kind, and the records
  logged to the frame channel so far. The array starts as \<open>{0, 0}\<close>.
\<close>

record FMiscTrace =
  LastFrameCycle :: "ETraceFrameType \<Rightarrow> 64 word"
  FrameChannelLog :: "TraceRecord list"

definition InitialTrace :: FMiscTrace where
  "InitialTrace = \<lparr>LastFrameCycle = (\<lambda>_. 0), FrameChannelLog = []\<rparr>"

text \<open>
  Modelled from the spec: \<open>FTraceUtils::Encode7bit\<close>, declared in the trace header
  outside the files at hand. The 7-bit variable-length encoding of an unsigned 64-bit
  value: seven payload bits per byte, lowest group first, the top bit of a byte set
  when more bytes follow.
\<close>

function Encode7bit :: "64 word \<Rightarrow> 8 word list" where
  "Encode7bit Value =
     (let HighBit = (if 0x7f < Value then 0x80 else 0);
          Byte = ucast (Value AND 0x7f) OR HighBit;
          Rest = drop_bit 7 Value
      in Byte # (if 0 < Rest then Encode7bit Rest else []))"
  by pat_completeness auto
termination
proof (relation "measure unat")
  show "wf (measure (unat :: 64 word \<Rightarrow> nat))" by simp
next
  fix Value :: "64 word" and x xa xb
  assume r: "xb = drop_bit 7 Value" and p: "0 < xb"
  have e: "unat (drop_bit 7 Value) = unat Value div 128"
    by (simp add: unat_drop_bit_eq, simp add: drop_bit_eq_div)
  from p r have "0 < unat (drop_bit 7 Value)"
    by (simp only: word_less_nat_alt unat_0)
  with e have "0 < unat Value div 128"
    by simp
  then have "unat Value div 128 < unat Value"
    by (intro div_less_dividend) (auto intro: Nat.gr0I)
  with r e show "(xb, Value) \<in> measure unat"
    by simp
qed

text \<open>
  The scratch buffer \<open>uint8 Buffer[9]\<close> holds nine bytes, and \<open>Encode7bit\<close> writes
  through the pointer with no bound of its own: an encoding that needs more bytes is
  written past the end of the buffer. The model stops there with a failure.
\<close>

datatype trace_failure = BufferOverrun

definition LogFrameEvent :: "FrameEvent \<Rightarrow> 8 word list \<Rightarrow> FMiscTrace \<Rightarrow> FMiscTrace" where
  "LogFrameEvent Ev Buffer T =
     T\<lparr>FrameChannelLog := FrameChannelLog T @ [\<lparr>Event = Ev, Attachment = Buffer\<rparr>]\<rparr>"

text \<open>
  \<open>FrameChannelEnabled\<close> is the value of \<open>UE_TRACE_CHANNELEXPR_IS_ENABLED(FrameChannel)\<close>
  and \<open>Cycles64\<close> the value \<open>FPlatformTime::Cycles64()\<close> returns at the call.
\<close>

definition OutputBeginFrame ::
  "bool \<Rightarrow> 64 word \<Rightarrow> ETraceFrameType \<Rightarrow> FMiscTrace \<Rightarrow> trace_failure + FMiscTrace" where
  "OutputBeginFrame FrameChannelEnabled Cycles64 FrameType T =
     (if \<not> FrameChannelEnabled then Inr T
      else
        let Cycle = Cycles64;
            CycleDiff = Cycle - LastFrameCycle T FrameType;
            T1 = T\<lparr>LastFrameCycle := (LastFrameCycle T)(FrameType := Cycle)\<rparr>;
            Buffer = Encode7bit CycleDiff
        in if 9 < length Buffer then Inl BufferOverrun
           else (case FrameType of
                   TraceFrameType_Game \<Rightarrow> Inr (LogFrameEvent BeginGameFrame Buffer T1)
                 | TraceFrameType_Rendering \<Rightarrow> Inr (LogFrameEvent BeginRenderFrame Buffer T1)))"

definition OutputEndFrame ::
  "bool \<Rightarrow> 64 word \<Rightarrow> ETraceFrameType \<Rightarrow> FMiscTrace \<Rightarrow> trace_failure + FMiscTrace" where
  "OutputEndFrame FrameChannelEnabled Cycles64 FrameType T =
     (if \<not> FrameChannelEnabled then Inr T
      else
        let Cycle = Cycles64;
            CycleDiff = Cycle - LastFrameCycle T FrameType;
            T1 = T\<lparr>LastFrameCycle := (LastFrameCycle T)(FrameType := Cycle)\<rparr>;
            Buffer = Encode7bit CycleDiff
        in if 9 < length Buffer then Inl BufferOverrun
           else (case FrameType of
                   TraceFrameType_Game \<Rightarrow> Inr (LogFrameEvent EndGameFrame Buffer T1)
                 | TraceFrameType_Rendering \<Rightarrow> Inr (LogFrameEvent EndRenderFrame Buffer T1)))"

text \<open>The event type that matches a frame kind, for stating the claim.\<close>

definition begin_event :: "ETraceFrameType \<Rightarrow> FrameEvent" where
  "begin_event k = (case k of TraceFrameType_Game \<Rightarrow> BeginGameFrame
                            | TraceFrameType_Rendering \<Rightarrow> BeginRenderFrame)"

definition end_event :: "ETraceFrameType \<Rightarrow> FrameEvent" where
  "end_event k = (case k of TraceFrameType_Game \<Rightarrow> EndGameFrame
                          | TraceFrameType_Rendering \<Rightarrow> EndRenderFrame)"

declare Encode7bit.simps [simp del]

section \<open>Camera cut track (MovieSceneCameraCutTrack.cpp)\<close>

text \<open>
  A frame number is the \<open>int32\<close> value of an \<open>FFrameNumber\<close>. A section is an object;
  \<open>SectionId\<close> stands for its address, which is what the track's array holds and what
  \<open>TArray::Remove\<close> compares. Its range is kept in discrete form: the inclusive start
  frame and the exclusive end frame, each absent when that side of the range is open
  (\<open>HasStartFrame\<close>, \<open>HasEndFrame\<close>).
\<close>

type_synonym FFrameNumber = int
type_synonym FMovieSceneObjectBindingID = nat

record UMovieSceneSection =
  SectionId :: nat
  StartFrame :: "FFrameNumber option"
  EndFrame :: "FFrameNumber option"
  CameraBindingID :: FMovieSceneObjectBindingID

text \<open>
  The helpers of \<open>MovieSceneHelpers\<close> are defined outside the files at hand. They are
  parameters of the model: each takes the section array (and, for the two fix-ups, the
  section concerned and the \<open>bDelete\<close> flag) and returns the array it leaves behind.
\<close>

record MovieSceneHelpers =
  SortConsecutiveSections :: "UMovieSceneSection list \<Rightarrow> UMovieSceneSection list"
  FixupConsecutiveSections ::
    "UMovieSceneSection list \<Rightarrow> UMovieSceneSection \<Rightarrow> bool \<Rightarrow> UMovieSceneSection list"
  FixupConsecutiveBlendingSections ::
    "UMovieSceneSection list \<Rightarrow> UMovieSceneSection \<Rightarrow> bool \<Rightarrow> UMovieSceneSection list"

text \<open>
  What the track reads of its owning movie scene: the discrete exclusive upper bound of
  the playback range, and the whole-frame part of \<open>.5f * GetTickResolution()\<close>, the
  frame time that \<open>FindEndTimeForCameraCut\<close> adds to the start time. Both come from
  types declared outside the files at hand and are parameters.
\<close>

record UMovieScene =
  PlaybackExclusiveUpper :: FFrameNumber
  HalfTickResolution :: FFrameNumber

record UMovieSceneCameraCutTrack =
  Sections :: "UMovieSceneSection list"
  bCanBlend :: bool

text \<open>
  The loop of \<open>FindEndTimeForCameraCut\<close>: the first section that has a start frame
  greater than \<open>StartTime\<close> gives the end time and ends the loop.
\<close>

fun FirstStartAfter :: "FFrameNumber \<Rightarrow> UMovieSceneSection list \<Rightarrow> FFrameNumber \<Rightarrow> FFrameNumber" where
  "FirstStartAfter StartTime [] ExclusiveEndTime = ExclusiveEndTime"
| "FirstStartAfter StartTime (Section # Rest) ExclusiveEndTime =
     (case StartFrame Section of
        Some InclusiveStartFrame \<Rightarrow>
          (if StartTime < InclusiveStartFrame then InclusiveStartFrame
           else FirstStartAfter StartTime Rest ExclusiveEndTime)
      | None \<Rightarrow> FirstStartAfter StartTime Rest ExclusiveEndTime)"

definition FindEndTimeForCameraCut ::
  "UMovieScene \<Rightarrow> UMovieSceneCameraCutTrack \<Rightarrow> FFrameNumber \<Rightarrow> FFrameNumber" where
  "FindEndTimeForCameraCut OwnerScene Track StartTime =
     (let ExclusivePlayEnd = PlaybackExclusiveUpper OwnerScene;
          ExclusiveEndTime =
            FirstStartAfter StartTime (Sections Track) (max ExclusivePlayEnd StartTime)
      in if StartTime = ExclusiveEndTime then StartTime + HalfTickResolution OwnerScene
         else ExclusiveEndTime)"

text \<open>
  The loop of \<open>AddNewCameraCut\<close>: the first section with both frames set, starting at
  \<open>StartTime\<close> and ending at \<open>NewSectionEndTime\<close>.
\<close>

fun FindExistingSection ::
  "FFrameNumber \<Rightarrow> FFrameNumber \<Rightarrow> UMovieSceneSection list \<Rightarrow> UMovieSceneSection option" where
  "FindExistingSection StartTime NewSectionEndTime [] = None"
| "FindExistingSection StartTime NewSectionEndTime (Section # Rest) =
     (if StartFrame Section = Some StartTime \<and> EndFrame Section = Some NewSectionEndTime
      then Some Section
      else FindExistingSection StartTime NewSectionEndTime Rest)"

text \<open>
  \<open>SetCameraBindingID\<close> on the object an array entry points to: every entry that is
  this object shows the new binding.
\<close>

definition SetCameraBindingID ::
  "nat \<Rightarrow> FMovieSceneObjectBindingID \<Rightarrow> UMovieSceneSection list \<Rightarrow> UMovieSceneSection list" where
  "SetCameraBindingID Obj Binding Secs =
     map (\<lambda>s. if SectionId s = Obj then s\<lparr>CameraBindingID := Binding\<rparr> else s) Secs"

text \<open>
  \<open>AddNewCameraCut\<close>. \<open>NewObject\<close> is the section that \<open>NewObject<...>\<close> constructs
  when no existing section matches. The result is the track and the section returned.
\<close>

definition AddNewCameraCut ::
  "MovieSceneHelpers \<Rightarrow> UMovieScene \<Rightarrow> UMovieSceneSection \<Rightarrow> UMovieSceneCameraCutTrack
     \<Rightarrow> FMovieSceneObjectBindingID \<Rightarrow> FFrameNumber
     \<Rightarrow> UMovieSceneCameraCutTrack \<times> UMovieSceneSection" where
  "AddNewCameraCut H OwnerScene NewObject Track Binding StartTime =
     (let NewSectionEndTime = FindEndTimeForCameraCut OwnerScene Track StartTime;
          ExistingSection = FindExistingSection StartTime NewSectionEndTime (Sections Track);
          (NewSection, Added) =
            (case ExistingSection of
               Some Existing \<Rightarrow>
                 (Existing\<lparr>CameraBindingID := Binding\<rparr>,
                  SetCameraBindingID (SectionId Existing) Binding (Sections Track))
             | None \<Rightarrow>
                 (let Created = NewObject\<lparr>StartFrame := Some StartTime,
                                           EndFrame := Some NewSectionEndTime,
                                           CameraBindingID := Binding\<rparr>
                  in (Created, Sections Track @ [Created])));
          Sorted = SortConsecutiveSections H Added;
          Fixed = (if bCanBlend Track
                   then FixupConsecutiveBlendingSections H Sorted NewSection False
                   else FixupConsecutiveSections H Sorted NewSection False)
      in (Track\<lparr>Sections := Fixed\<rparr>, NewSection))"

text \<open>\<open>RemoveSection\<close>: the array drops the section first, then a fix-up runs.\<close>

definition RemoveSection ::
  "MovieSceneHelpers \<Rightarrow> UMovieSceneCameraCutTrack \<Rightarrow> UMovieSceneSection
     \<Rightarrow> UMovieSceneCameraCutTrack" where
  "RemoveSection H Track Section =
     (let Removed = filter (\<lambda>s. SectionId s \<noteq> SectionId Section) (Sections Track);
          Fixed = (if bCanBlend Track
                   then FixupConsecutiveSections H Removed Section True
                   else FixupConsecutiveBlendingSections H Removed Section True)
      in Track\<lparr>Sections := Fixed\<rparr>)"

text \<open>
  \<open>RemoveSectionAt\<close>. Reading \<open>Sections[SectionIndex]\<close> and \<open>RemoveAt\<close> both check
  the index against the array as it is at that moment.
\<close>

definition RemoveAt :: "int \<Rightarrow> 'a list \<Rightarrow> check_failure + 'a list" where
  "RemoveAt Index xs =
     (if 0 \<le> Index \<and> Index < int (length xs)
      then Inr (take (nat Index) xs @ drop (Suc (nat Index)) xs)
      else Inl CheckFailed)"

definition RemoveSectionAt ::
  "MovieSceneHelpers \<Rightarrow> UMovieSceneCameraCutTrack \<Rightarrow> int
     \<Rightarrow> check_failure + UMovieSceneCameraCutTrack" where
  "RemoveSectionAt H Track SectionIndex =
     (if 0 \<le> SectionIndex \<and> SectionIndex < int (length (Sections Track))
      then
        (let SectionToDelete = Sections Track ! nat SectionIndex;
             Fixed = (if bCanBlend Track
                      then FixupConsecutiveSections H (Sections Track) SectionToDelete True
                      else FixupConsecutiveBlendingSections H (Sections Track) SectionToDelete True)
         in case RemoveAt SectionIndex Fixed of
              Inl failure \<Rightarrow> Inl failure
            | Inr Removed \<Rightarrow> Inr (Track\<lparr>Sections := SortConsecutiveSections H Removed\<rparr>))
      else Inl CheckFailed)"

text \<open>\<open>OnSectionMoved\<close>, the other user of the two fix-ups in this file.\<close>

definition OnSectionMoved ::
  "MovieSceneHelpers \<Rightarrow> UMovieSceneCameraCutTrack \<Rightarrow> UMovieSceneSection
     \<Rightarrow> UMovieSceneCameraCutTrack" where
  "OnSectionMoved H Track Section =
     Track\<lparr>Sections :=
       (if bCanBlend Track
        then FixupConsecutiveBlendingSections H (Sections Track) Section False
        else FixupConsecutiveSections H (Sections Track) Section False)\<rparr>"

text \<open>
  The specification's side. The end time before the zero-length correction: the start
  of the first section that begins strictly after the requested start, else the
  exclusive upper bound of the playback range, raised to at least the start.
\<close>

definition starts_after :: "FFrameNumber \<Rightarrow> UMovieSceneSection \<Rightarrow> bool" where
  "starts_after t s = (case StartFrame s of Some f \<Rightarrow> t < f | None \<Rightarrow> False)"

definition computed_end :: "UMovieScene \<Rightarrow> UMovieSceneCameraCutTrack \<Rightarrow> FFrameNumber \<Rightarrow> FFrameNumber" where
  "computed_end OwnerScene Track StartTime =
     (case find (starts_after StartTime) (Sections Track) of
        Some s \<Rightarrow> the (StartFrame s)
      | None \<Rightarrow> max (PlaybackExclusiveUpper OwnerScene) StartTime)"

definition occupies :: "FFrameNumber \<Rightarrow> FFrameNumber \<Rightarrow> UMovieSceneSection \<Rightarrow> bool" where
  "occupies a b s = (StartFrame s = Some a \<and> EndFrame s = Some b)"

text \<open>
  The removal policy as the specification words it: the fix-up of insertion, chosen by
  \<open>bCanBlend\<close> the same way, run with \<open>bDelete\<close> before the section leaves the array,
  and a sort of what remains.
\<close>

definition removal_fixup ::
  "MovieSceneHelpers \<Rightarrow> UMovieSceneCameraCutTrack \<Rightarrow> UMovieSceneSection
     \<Rightarrow> UMovieSceneSection list" where
  "removal_fixup H Track Section =
     (if bCanBlend Track
      then FixupConsecutiveBlendingSections H (Sections Track) Section True
      else FixupConsecutiveSections H (Sections Track) Section True)"

text \<open>Sections, a scene and helpers to run the track on.\<close>

definition cut :: "nat \<Rightarrow> FFrameNumber \<Rightarrow> FFrameNumber \<Rightarrow> FMovieSceneObjectBindingID \<Rightarrow> UMovieSceneSection" where
  "cut i a b c = \<lparr>SectionId = i, StartFrame = Some a, EndFrame = Some b, CameraBindingID = c\<rparr>"

definition film :: UMovieScene where
  "film = \<lparr>PlaybackExclusiveUpper = 200, HalfTickResolution = 12000\<rparr>"

text \<open>
  A movie scene whose tick resolution is one tick per second: the frame time
  \<open>.5f * GetTickResolution()\<close> is half a frame, and its whole-frame part is 0.
\<close>

definition unit_tick_film :: UMovieScene where
  "unit_tick_film = \<lparr>PlaybackExclusiveUpper = 200, HalfTickResolution = 0\<rparr>"

definition two_cuts :: UMovieSceneCameraCutTrack where
  "two_cuts = \<lparr>Sections = [cut 1 0 100 7, cut 2 100 200 8], bCanBlend = False\<rparr>"

definition two_blended_cuts :: UMovieSceneCameraCutTrack where
  "two_blended_cuts = \<lparr>Sections = [cut 1 0 100 7, cut 2 100 200 8], bCanBlend = True\<rparr>"

text \<open>Helpers that leave the array as it is, to read the track's own steps off a result.\<close>

definition idle_helpers :: MovieSceneHelpers where
  "idle_helpers = \<lparr>SortConsecutiveSections = (\<lambda>ss. ss),
     FixupConsecutiveSections = (\<lambda>ss s d. ss),
     FixupConsecutiveBlendingSections = (\<lambda>ss s d. ss)\<rparr>"

section \<open>Cached material parameters (MaterialCachedData.cpp)\<close>

text \<open>
  Modelled from the spec: \<open>FGuid\<close>, the identifier of an expression, declared by the
  core library outside the files at hand. Four 32-bit components; the default
  identifier \<open>FGuid()\<close> has all of them zero and is the one that is not valid.
\<close>

record FGuid =
  GuidA :: "32 word"
  GuidB :: "32 word"
  GuidC :: "32 word"
  GuidD :: "32 word"

definition IsValid :: "FGuid \<Rightarrow> bool" where
  "IsValid g = ((GuidA g OR GuidB g OR GuidC g OR GuidD g) \<noteq> 0)"

definition DefaultGuid :: FGuid where
  "DefaultGuid = \<lparr>GuidA = 0, GuidB = 0, GuidC = 0, GuidD = 0\<rparr>"

text \<open>
  A parameter is known by its name, its association (the byte of the enumeration
  \<open>EMaterialParameterAssociation\<close>) and its index. The hashed form carries the 64-bit
  hash of the name in place of the name.
\<close>

record FMaterialParameterInfo =
  Name :: FName
  Association :: "8 word"
  Index :: int

record FHashedMaterialParameterInfo =
  HashedName :: "64 word"
  HashedAssociation :: "8 word"
  HashedIndex :: int

text \<open>
  The hash of a name, \<open>FHashedName(Name).GetHash()\<close>, is computed outside the files at
  hand; it is the parameter \<open>GetHash\<close> of the functions that hash.
\<close>

definition HashParameterInfo :: "(FName \<Rightarrow> 64 word) \<Rightarrow> FMaterialParameterInfo \<Rightarrow> FHashedMaterialParameterInfo" where
  "HashParameterInfo GetHash ParameterInfo =
     \<lparr>HashedName = GetHash (Name ParameterInfo),
      HashedAssociation = Association ParameterInfo,
      HashedIndex = Index ParameterInfo\<rparr>"

record FMaterialCachedParameterEntry =
  NameHashes :: "64 word list"
  ParameterInfos :: "FMaterialParameterInfo list"
  ExpressionGuids :: "FGuid list"
  Overrides :: "bool list"

datatype EMaterialParameterType = Scalar | Vector | Texture | Font | RuntimeVirtualTexture

text \<open>The table of one material: one entry per parameter kind.\<close>

record FMaterialCachedParameters =
  Entries :: "EMaterialParameterType \<Rightarrow> FMaterialCachedParameterEntry"

definition ResetEntry :: FMaterialCachedParameterEntry where
  "ResetEntry = \<lparr>NameHashes = [], ParameterInfos = [], ExpressionGuids = [], Overrides = []\<rparr>"

definition ResetParameters :: FMaterialCachedParameters where
  "ResetParameters = \<lparr>Entries = (\<lambda>_. ResetEntry)\<rparr>"

text \<open>The two lambdas of \<open>FindParameterLowerBoundIndex\<close>.\<close>

definition ProjectionFunc :: "FMaterialParameterInfo \<Rightarrow> FHashedMaterialParameterInfo" where
  "ProjectionFunc InParameterInfo =
     \<lparr>HashedName = 0,
      HashedAssociation = Association InParameterInfo,
      HashedIndex = Index InParameterInfo\<rparr>"

definition CompareFunc :: "FHashedMaterialParameterInfo \<Rightarrow> FHashedMaterialParameterInfo \<Rightarrow> bool" where
  "CompareFunc Lhs Rhs =
     (if HashedAssociation Lhs \<noteq> HashedAssociation Rhs
      then HashedAssociation Lhs < HashedAssociation Rhs
      else HashedIndex Lhs < HashedIndex Rhs)"

text \<open>
  \<open>FindParameterLowerBoundIndex\<close>. The array views are the part of the array they
  cover: \<open>drop\<close> from the lower index, and \<open>take\<close> of the length of the run.
\<close>

definition FindParameterLowerBoundIndex ::
  "FMaterialCachedParameterEntry \<Rightarrow> FHashedMaterialParameterInfo \<Rightarrow> nat" where
  "FindParameterLowerBoundIndex Entry HashedParameterInfo =
     (let NameHash = HashedName HashedParameterInfo;
          LowerIndex = LowerBound (NameHashes Entry) NameHash
      in if LowerIndex < length (NameHashes Entry) then
           (let NameHashesUpper = drop LowerIndex (NameHashes Entry);
                UpperIndex = LowerIndex + UpperBound NameHashesUpper NameHash
            in if 0 < UpperIndex - LowerIndex then
                 (let Infos = take (UpperIndex - LowerIndex) (drop LowerIndex (ParameterInfos Entry))
                  in LowerIndex + LowerBoundBy Infos HashedParameterInfo ProjectionFunc CompareFunc)
               else LowerIndex)
         else LowerIndex)"

definition INDEX_NONE :: int where
  "INDEX_NONE = - 1"

text \<open>
  \<open>TryAddParameter\<close>. The function takes a reference to the entry of the kind,
  \<open>CachedParameters.Entries[(int32)Type]\<close>, and works on that entry alone:
  \<open>TryAddToEntry\<close> is its body on the referenced entry, with the index it returns.
  The four arrays of an entry are parallel, so the index found in the hashes is an
  index of each.
\<close>

definition TryAddToEntry ::
  "(FName \<Rightarrow> 64 word) \<Rightarrow> FMaterialCachedParameterEntry \<Rightarrow> FMaterialParameterInfo \<Rightarrow> FGuid \<Rightarrow> bool
     \<Rightarrow> FMaterialCachedParameterEntry \<times> int" where
  "TryAddToEntry GetHash Entry ParameterInfo ExpressionGuid bOverride =
     (let HashedParameterInfo = HashParameterInfo GetHash ParameterInfo;
          Idx = FindParameterLowerBoundIndex Entry HashedParameterInfo
      in if length (NameHashes Entry) \<le> Idx \<or> ParameterInfos Entry ! Idx \<noteq> ParameterInfo then
           (Entry\<lparr>NameHashes := Insert (HashedName HashedParameterInfo) Idx (NameHashes Entry),
                  ParameterInfos := Insert ParameterInfo Idx (ParameterInfos Entry),
                  ExpressionGuids := Insert ExpressionGuid Idx (ExpressionGuids Entry),
                  Overrides := Insert bOverride Idx (Overrides Entry)\<rparr>,
            int Idx)
         else if Overrides Entry ! Idx \<and> \<not> IsValid (ExpressionGuids Entry ! Idx) then
           (Entry\<lparr>ExpressionGuids := (ExpressionGuids Entry)[Idx := ExpressionGuid]\<rparr>,
            INDEX_NONE)
         else (Entry, INDEX_NONE))"

definition TryAddParameter ::
  "(FName \<Rightarrow> 64 word) \<Rightarrow> FMaterialCachedParameters \<Rightarrow> EMaterialParameterType
     \<Rightarrow> FMaterialParameterInfo \<Rightarrow> FGuid \<Rightarrow> bool \<Rightarrow> FMaterialCachedParameters \<times> int" where
  "TryAddParameter GetHash CachedParameters Type ParameterInfo ExpressionGuid bOverride =
     (let (Entry, Result) =
            TryAddToEntry GetHash (Entries CachedParameters Type) ParameterInfo ExpressionGuid bOverride
      in (CachedParameters\<lparr>Entries := (Entries CachedParameters)(Type := Entry)\<rparr>, Result))"

definition FindParameterIndex ::
  "FMaterialCachedParameters \<Rightarrow> EMaterialParameterType \<Rightarrow> FHashedMaterialParameterInfo \<Rightarrow> int" where
  "FindParameterIndex CachedParameters Type HashedParameterInfo =
     (let Entry = Entries CachedParameters Type;
          Idx = FindParameterLowerBoundIndex Entry HashedParameterInfo
      in if Idx < length (NameHashes Entry)
            \<and> NameHashes Entry ! Idx = HashedName HashedParameterInfo
            \<and> Association (ParameterInfos Entry ! Idx) = HashedAssociation HashedParameterInfo
            \<and> Index (ParameterInfos Entry ! Idx) = HashedIndex HashedParameterInfo
         then int Idx else INDEX_NONE)"

text \<open>
  A sequence of insertions into a table that starts empty (\<open>Reset\<close>): each insertion
  names the parameter kind, the parameter, the expression identifier and the override
  flag of one call.
\<close>

record Insertion =
  Kind :: EMaterialParameterType
  Info :: FMaterialParameterInfo
  Guid :: FGuid
  Override :: bool

definition AddParameter :: "(FName \<Rightarrow> 64 word) \<Rightarrow> FMaterialCachedParameters \<Rightarrow> Insertion
    \<Rightarrow> FMaterialCachedParameters" where
  "AddParameter GetHash P a = fst (TryAddParameter GetHash P (Kind a) (Info a) (Guid a) (Override a))"

definition AddParameters :: "(FName \<Rightarrow> 64 word) \<Rightarrow> Insertion list \<Rightarrow> FMaterialCachedParameters" where
  "AddParameters GetHash ops = foldl (AddParameter GetHash) ResetParameters ops"

text \<open>
  The sort key of a stored parameter, and the keys of an entry in array order. Triples
  are compared lexicographically: by hash, then by association, then by index.
\<close>

definition info_key :: "64 word \<Rightarrow> FMaterialParameterInfo \<Rightarrow> 64 word \<times> 8 word \<times> int" where
  "info_key h p = (h, Association p, Index p)"

definition hashed_key :: "FHashedMaterialParameterInfo \<Rightarrow> 64 word \<times> 8 word \<times> int" where
  "hashed_key h = (HashedName h, HashedAssociation h, HashedIndex h)"

definition entry_keys :: "FMaterialCachedParameterEntry \<Rightarrow> (64 word \<times> 8 word \<times> int) list" where
  "entry_keys E = map2 info_key (NameHashes E) (ParameterInfos E)"

text \<open>
  The invariant of an entry: parallel arrays, each hash the hash of its parameter's
  name, and the keys in ascending order.
\<close>

definition entry_inv :: "(FName \<Rightarrow> 64 word) \<Rightarrow> FMaterialCachedParameterEntry \<Rightarrow> bool" where
  "entry_inv GetHash E =
     (length (ParameterInfos E) = length (NameHashes E)
      \<and> length (ExpressionGuids E) = length (NameHashes E)
      \<and> length (Overrides E) = length (NameHashes E)
      \<and> NameHashes E = map (\<lambda>p. GetHash (Name p)) (ParameterInfos E)
      \<and> sorted (entry_keys E))"

text \<open>Parameters and hash functions to run the table on.\<close>

definition param :: "string \<Rightarrow> FMaterialParameterInfo" where
  "param n = \<lparr>Name = n, Association = 2, Index = - 1\<rparr>"

definition guid :: "32 word \<Rightarrow> FGuid" where
  "guid a = \<lparr>GuidA = a, GuidB = 0, GuidC = 0, GuidD = 0\<rparr>"

definition add_scalar :: "string \<Rightarrow> FGuid \<Rightarrow> bool \<Rightarrow> Insertion" where
  "add_scalar n g ov = \<lparr>Kind = Scalar, Info = param n, Guid = g, Override = ov\<rparr>"

definition length_hash :: "FName \<Rightarrow> 64 word" where
  "length_hash n = of_nat (length n)"

section \<open>Floating-point numbers and 32-bit integers of the source\<close>

text \<open>
  The source computes with \<open>float\<close> and \<open>double\<close>, the formats binary32 and binary64
  of IEEE 754, rounding every result to the nearest number of the format, a tie to the
  one with an even last digit. A value of either type is a finite number, an infinity
  with its sign (\<open>True\<close> for the negative one), or not a number. The sign of a zero is
  not kept; it would show only in the sign of the infinity that a division by the zero
  yields.
\<close>

datatype ieee = Finite real | Infinity bool | NaN

record format =
  Precision :: nat
  MinExponent :: int
  MaxExponent :: int

definition binary32 :: format where
  "binary32 = \<lparr>Precision = 24, MinExponent = - 126, MaxExponent = 127\<rparr>"

definition binary64 :: format where
  "binary64 = \<lparr>Precision = 53, MinExponent = - 1022, MaxExponent = 1023\<rparr>"

text \<open>
  The exponent that a number is written with in a format: the greatest exponent of the
  format whose power of two does not exceed the number, and the least exponent of the
  format for a number below every such power (zero and the subnormal numbers).
\<close>

definition Exponent :: "format \<Rightarrow> real \<Rightarrow> int" where
  "Exponent f x =
     Max (insert (MinExponent f) {e \<in> {MinExponent f..MaxExponent f}. 2 powi e \<le> \<bar>x\<bar>})"

text \<open>The distance between neighbouring numbers of the format around \<open>x\<close>.\<close>

definition Ulp :: "format \<Rightarrow> real \<Rightarrow> real" where
  "Ulp f x = 2 powi (Exponent f x - int (Precision f) + 1)"

definition RoundHalfEven :: "real \<Rightarrow> int" where
  "RoundHalfEven x =
     (let n = \<lfloor>x\<rfloor>; d = x - of_int n
      in if d < 1 / 2 then n else if 1 / 2 < d then n + 1 else if even n then n else n + 1)"

text \<open>
  The multiple of the unit in the last place nearest to \<open>x\<close>, and the value of the
  format that \<open>x\<close> rounds to: an infinity once the multiple leaves the format.
\<close>

definition Rounded :: "format \<Rightarrow> real \<Rightarrow> real" where
  "Rounded f x = of_int (RoundHalfEven (x / Ulp f x)) * Ulp f x"

definition Round :: "format \<Rightarrow> real \<Rightarrow> ieee" where
  "Round f x =
     (if 2 powi (MaxExponent f + 1) \<le> \<bar>Rounded f x\<bar> then Infinity (x < 0)
      else Finite (Rounded f x))"

text \<open>
  The operations of the source's expressions, each with the format of its result.
  \<open>ieee_convert\<close> is the conversion of a value to a format; from \<open>float\<close> to
  \<open>double\<close> it changes nothing, every \<open>float\<close> being a \<open>double\<close>.
\<close>

definition ieee_convert :: "format \<Rightarrow> ieee \<Rightarrow> ieee" where
  "ieee_convert f a = (case a of Finite x \<Rightarrow> Round f x | Infinity n \<Rightarrow> Infinity n | NaN \<Rightarrow> NaN)"

definition ieee_add :: "format \<Rightarrow> ieee \<Rightarrow> ieee \<Rightarrow> ieee" where
  "ieee_add f a b =
     (case (a, b) of
        (Finite x, Finite y) \<Rightarrow> Round f (x + y)
      | (Finite x, Infinity n) \<Rightarrow> Infinity n
      | (Infinity m, Finite y) \<Rightarrow> Infinity m
      | (Infinity m, Infinity n) \<Rightarrow> (if m = n then Infinity m else NaN)
      | _ \<Rightarrow> NaN)"

definition ieee_mul :: "format \<Rightarrow> ieee \<Rightarrow> ieee \<Rightarrow> ieee" where
  "ieee_mul f a b =
     (case (a, b) of
        (Finite x, Finite y) \<Rightarrow> Round f (x * y)
      | (Finite x, Infinity n) \<Rightarrow> (if x = 0 then NaN else Infinity (n \<noteq> (x < 0)))
      | (Infinity m, Finite y) \<Rightarrow> (if y = 0 then NaN else Infinity (m \<noteq> (y < 0)))
      | (Infinity m, Infinity n) \<Rightarrow> Infinity (m \<noteq> n)
      | _ \<Rightarrow> NaN)"

definition ieee_div :: "format \<Rightarrow> ieee \<Rightarrow> ieee \<Rightarrow> ieee" where
  "ieee_div f a b =
     (case (a, b) of
        (Finite x, Finite y) \<Rightarrow>
          (if y = 0 then (if x = 0 then NaN else Infinity (x < 0)) else Round f (x / y))
      | (Finite x, Infinity n) \<Rightarrow> Finite 0
      | (Infinity m, Finite y) \<Rightarrow> Infinity (m \<noteq> (y < 0))
      | _ \<Rightarrow> NaN)"

text \<open>The comparisons \<open>>=\<close> and \<open>!=\<close>; not a number compares unequal to everything.\<close>

definition ieee_ge :: "ieee \<Rightarrow> ieee \<Rightarrow> bool" where
  "ieee_ge a b =
     (case (a, b) of
        (Finite x, Finite y) \<Rightarrow> y \<le> x
      | (Finite x, Infinity n) \<Rightarrow> n
      | (Infinity m, Finite y) \<Rightarrow> \<not> m
      | (Infinity m, Infinity n) \<Rightarrow> \<not> m \<or> n
      | _ \<Rightarrow> False)"

definition ieee_ne :: "ieee \<Rightarrow> ieee \<Rightarrow> bool" where
  "ieee_ne a b =
     (case (a, b) of
        (Finite x, Finite y) \<Rightarrow> x \<noteq> y
      | (Infinity m, Infinity n) \<Rightarrow> m \<noteq> n
      | _ \<Rightarrow> True)"

text \<open>
  An \<open>int32\<close> holds the integers from \<open>- 2 ^ 31\<close> to \<open>2 ^ 31 - 1\<close>. Where the
  language leaves the behaviour undefined (a product or a quotient outside that
  range, a division by zero, the conversion of a floating-point value that is not a
  finite number of that range) the operation has no value: \<open>None\<close>. Division
  truncates towards zero (\<open>sdiv\<close>, \<open>smod\<close>).
\<close>

definition int32 :: "int \<Rightarrow> int option" where
  "int32 n = (if - (2 ^ 31) \<le> n \<and> n < 2 ^ 31 then Some n else None)"

definition int32_mul :: "int \<Rightarrow> int \<Rightarrow> int option" where
  "int32_mul a b = int32 (a * b)"

definition int32_div :: "int \<Rightarrow> int \<Rightarrow> int option" where
  "int32_div a b = (if b = 0 then None else int32 (a sdiv b))"

definition int32_mod :: "int \<Rightarrow> int \<Rightarrow> int option" where
  "int32_mod a b = (if b = 0 \<or> int32 (a sdiv b) = None then None else Some (a smod b))"

text \<open>
  The conversions of \<open>FMath\<close> are defined by the core library outside the files at
  hand, on \<open>float\<close>: \<open>TruncToInt\<close> is the conversion of the language from \<open>float\<close>
  to \<open>int32\<close>, which drops the fraction; \<open>FloorToInt\<close> and \<open>CeilToInt\<close> convert the
  results of \<open>floorf\<close> and \<open>ceilf\<close>; \<open>RoundToInt(F)\<close> is \<open>FloorToInt(F + 0.5f)\<close>.
\<close>

definition TruncToInt :: "ieee \<Rightarrow> int option" where
  "TruncToInt F =
     (case F of Finite x \<Rightarrow> int32 (if 0 \<le> x then \<lfloor>x\<rfloor> else \<lceil>x\<rceil>) | _ \<Rightarrow> None)"

definition floorf :: "ieee \<Rightarrow> ieee" where
  "floorf F = (case F of Finite x \<Rightarrow> Finite (of_int \<lfloor>x\<rfloor>) | _ \<Rightarrow> F)"

definition ceilf :: "ieee \<Rightarrow> ieee" where
  "ceilf F = (case F of Finite x \<Rightarrow> Finite (of_int \<lceil>x\<rceil>) | _ \<Rightarrow> F)"

definition FloorToInt :: "ieee \<Rightarrow> int option" where
  "FloorToInt F = TruncToInt (floorf F)"

definition CeilToInt :: "ieee \<Rightarrow> int option" where
  "CeilToInt F = TruncToInt (ceilf F)"

definition RoundToInt :: "ieee \<Rightarrow> int option" where
  "RoundToInt F = FloorToInt (ieee_add binary32 F (Finite (1 / 2)))"

section \<open>Grid spacing of the animation timeline (SAnimTimeline.cpp)\<close>

text \<open>
  A frame rate is a fraction of two \<open>int32\<close> values. \<open>AsDecimal\<close> and \<open>AsInterval\<close>
  are defined with the type outside the files at hand: the quotient of the two
  numbers as \<open>double\<close>, and its inverse. Every \<open>int32\<close> is a \<open>double\<close>.
\<close>

record FFrameRate =
  Numerator :: int
  Denominator :: int

definition AsDecimal :: "FFrameRate \<Rightarrow> ieee" where
  "AsDecimal r =
     ieee_div binary64 (Finite (of_int (Numerator r))) (Finite (of_int (Denominator r)))"

definition AsInterval :: "FFrameRate \<Rightarrow> ieee" where
  "AsInterval r =
     ieee_div binary64 (Finite (of_int (Denominator r))) (Finite (of_int (Numerator r)))"

text \<open>
  The first statement of \<open>ComputeGridSpacing\<close>, which gives \<open>RoundedFPS\<close> its
  value: \<open>RoundToInt\<close> takes a \<open>float\<close>, so the \<open>double\<close> is converted.
\<close>

definition RoundFrameRate :: "FFrameRate \<Rightarrow> int option" where
  "RoundFrameRate InFrameRate = RoundToInt (ieee_convert binary32 (AsDecimal InFrameRate))"

text \<open>
  The inner loop over the denominators 2, 3 and 5: the lowest quotient that is
  positive and below the base, or the base itself.
\<close>

definition LowestResultOf :: "int \<Rightarrow> int" where
  "LowestResultOf LowestBase =
     fold (\<lambda>Denominator LowestResult.
            let Result = LowestBase sdiv Denominator
            in if 0 < Result \<and> Result < LowestResult then Result else LowestResult)
       [2, 3, 5] LowestBase"

text \<open>
  The loop \<open>for (;;)\<close> that builds the common bases. It has no bound of its own:
  the model is a partial function, and a run that never leaves the loop is \<open>None\<close>.
\<close>

partial_function (option) CommonBasesLoop :: "int \<Rightarrow> int list \<Rightarrow> int list option" where
  "CommonBasesLoop LowestBase CommonBases =
     (if LowestBase smod 2 = 0 then CommonBasesLoop (LowestBase sdiv 2) (CommonBases @ [LowestBase])
      else if LowestBase smod 3 = 0 then CommonBasesLoop (LowestBase sdiv 3) (CommonBases @ [LowestBase])
      else if LowestBase smod 5 = 0 then CommonBasesLoop (LowestBase sdiv 5) (CommonBases @ [LowestBase])
      else if LowestResultOf LowestBase < LowestBase
        then CommonBasesLoop (LowestResultOf LowestBase) (CommonBases @ [LowestBase])
        else Some (CommonBases @ [LowestBase]))"

declare CommonBasesLoop.simps [code]

text \<open>
  The loop over \<open>DivIndex\<close> below \<open>BaseIndex\<close>: the common bases before the chosen
  one, in order; the first that divides the base and keeps the minor tick at least
  \<open>MinTickPx\<close> wide gives the divisions and ends the loop. The major interval is a
  \<open>double\<close>, and the two \<open>float\<close> values enter the comparison as \<open>double\<close>.
\<close>

fun FindMinorDivisions ::
  "int \<Rightarrow> int \<Rightarrow> ieee \<Rightarrow> ieee \<Rightarrow> ieee \<Rightarrow> int list \<Rightarrow> int \<Rightarrow> int option" where
  "FindMinorDivisions Base MajorFrames MajorInterval PixelsPerSecond MinTickPx [] OutMinor =
     Some OutMinor"
| "FindMinorDivisions Base MajorFrames MajorInterval PixelsPerSecond MinTickPx
     (CommonBase # Rest) OutMinor =
     (case int32_mod Base CommonBase of
        None \<Rightarrow> None
      | Some Remainder \<Rightarrow>
          if Remainder = 0 then
            (case int32_div MajorFrames CommonBase of
               None \<Rightarrow> None
             | Some MinorDivisions \<Rightarrow>
                 if ieee_ge
                      (ieee_mul binary64
                         (ieee_div binary64 MajorInterval (Finite (of_int MinorDivisions)))
                         PixelsPerSecond)
                      MinTickPx
                 then Some MinorDivisions
                 else FindMinorDivisions Base MajorFrames MajorInterval PixelsPerSecond
                        MinTickPx Rest OutMinor)
          else FindMinorDivisions Base MajorFrames MajorInterval PixelsPerSecond
                 MinTickPx Rest OutMinor)"

text \<open>
  What \<open>ComputeGridSpacing\<close> returns and writes to its two out parameters, together
  with its local \<open>MajorIntervalFrames\<close>, the major interval in frames.
\<close>

record GridSpacing =
  Succeeded :: bool
  OutMajorInterval :: ieee
  OutMinorDivisions :: int
  MajorIntervalFrames :: int

text \<open>
  The scale: the ceiling of a \<open>double\<close> product of the \<open>float\<close> quotient and the
  frame rate, converted to \<open>float\<close> for \<open>CeilToInt\<close>.
\<close>

definition ScaleOf :: "FFrameRate \<Rightarrow> ieee \<Rightarrow> ieee \<Rightarrow> int option" where
  "ScaleOf InFrameRate DesiredMajorTickPx PixelsPerSecond =
     CeilToInt (ieee_convert binary32
       (ieee_mul binary64 (ieee_div binary32 DesiredMajorTickPx PixelsPerSecond)
          (AsDecimal InFrameRate)))"

text \<open>
  \<open>CeilToInt(Scale / float(Base)) * Base\<close>: a \<open>float\<close> division of the two
  integers, both converted, and a product of two \<open>int32\<close> values.
\<close>

definition CeiledMultiple :: "int \<Rightarrow> int \<Rightarrow> int option" where
  "CeiledMultiple Scale Base =
     (case CeilToInt (ieee_div binary32 (Round binary32 (of_int Scale))
             (Round binary32 (of_int Base))) of
        None \<Rightarrow> None
      | Some Ceiled \<Rightarrow> int32_mul Ceiled Base)"

text \<open>
  The statements after the loop, on the common bases in ascending order. The result
  is \<open>None\<close> where a conversion, a product or a quotient has no value.
\<close>

definition GridFromBases ::
  "FFrameRate \<Rightarrow> ieee \<Rightarrow> ieee \<Rightarrow> ieee \<Rightarrow> int list \<Rightarrow> GridSpacing option" where
  "GridFromBases InFrameRate PixelsPerSecond MinTickPx DesiredMajorTickPx CommonBases =
     (case ScaleOf InFrameRate DesiredMajorTickPx PixelsPerSecond of
        None \<Rightarrow> None
      | Some Scale \<Rightarrow>
          (let BaseIndex = min (LowerBound CommonBases Scale) (length CommonBases - 1);
               Base = CommonBases ! BaseIndex
           in case CeiledMultiple Scale Base of
                None \<Rightarrow> None
              | Some MajorFrames \<Rightarrow>
                  (let MajorInterval =
                         ieee_mul binary64 (Finite (of_int MajorFrames)) (AsInterval InFrameRate)
                   in case FindMinorDivisions Base MajorFrames MajorInterval
                             PixelsPerSecond MinTickPx (take BaseIndex CommonBases)
                             MajorFrames of
                        None \<Rightarrow> None
                      | Some MinorDivisions \<Rightarrow>
                          Some \<lparr>Succeeded = ieee_ne MajorInterval (Finite 0),
                            OutMajorInterval = MajorInterval,
                            OutMinorDivisions = MinorDivisions,
                            MajorIntervalFrames = MajorFrames\<rparr>)))"

text \<open>
  How a call ends: it returns a result, it runs into behaviour the language leaves
  undefined, or it never leaves the loop that builds the common bases.
\<close>

datatype 'a outcome = Returns 'a | Undefined | Diverges

definition returned :: "'a outcome \<Rightarrow> 'a option" where
  "returned r = (case r of Returns x \<Rightarrow> Some x | _ \<Rightarrow> None)"

text \<open>
  \<open>ComputeGridSpacing\<close>. The three \<open>float\<close> parameters hold values of that type:
  what is passed for them is converted at the call.
\<close>

definition ComputeGridSpacing ::
  "FFrameRate \<Rightarrow> ieee \<Rightarrow> ieee \<Rightarrow> ieee \<Rightarrow> GridSpacing outcome" where
  "ComputeGridSpacing InFrameRate PixelsPerSecond MinTickPx DesiredMajorTickPx =
     (case RoundFrameRate InFrameRate of
        None \<Rightarrow> Undefined
      | Some RoundedFPS \<Rightarrow>
          (case CommonBasesLoop RoundedFPS [] of
             None \<Rightarrow> Diverges
           | Some Added \<Rightarrow>
               (case GridFromBases InFrameRate (ieee_convert binary32 PixelsPerSecond)
                       (ieee_convert binary32 MinTickPx)
                       (ieee_convert binary32 DesiredMajorTickPx) (rev Added) of
                  None \<Rightarrow> Undefined
                | Some Grid \<Rightarrow> Returns Grid)))"

text \<open>
  The major interval in frames as a number, for stating how it depends on the scale:
  the ceiling of the rounded quotient of the rounded scale and the rounded base, times
  the base that the search picks.
\<close>

definition CeiledQuotient :: "int \<Rightarrow> int \<Rightarrow> int" where
  "CeiledQuotient Scale Base =
     \<lceil>Rounded binary32 (Rounded binary32 (of_int Scale) / Rounded binary32 (of_int Base))\<rceil>"

definition MajorFramesOf :: "int list \<Rightarrow> int \<Rightarrow> int" where
  "MajorFramesOf CommonBases Scale =
     (let Base = CommonBases ! min (LowerBound CommonBases Scale) (length CommonBases - 1)
      in CeiledQuotient Scale Base * Base)"

text \<open>A frame rate to run the function on: thirty frames per second.\<close>

definition fps30 :: FFrameRate where
  "fps30 = \<lparr>Numerator = 30, Denominator = 1\<rparr>"

chapter \<open>Properties\<close>

section \<open>The binary search finds the lower bound\<close>

text \<open>
  On a range whose elements before the position form a prefix, the search returns the
  position: invariant of the halving loop, by induction along its recursion.
\<close>

lemma LowerBoundInternal_correct:
  assumes "Start + Size \<le> length xs"
    and "\<forall>i j. Start \<le> i \<longrightarrow> i \<le> j \<longrightarrow> j < Start + Size \<longrightarrow> P (xs ! j) \<longrightarrow> P (xs ! i)"
  shows "Start \<le> LowerBoundInternal P xs Start Size
    \<and> LowerBoundInternal P xs Start Size \<le> Start + Size
    \<and> (\<forall>i. Start \<le> i \<longrightarrow> i < LowerBoundInternal P xs Start Size \<longrightarrow> P (xs ! i))
    \<and> (\<forall>i. LowerBoundInternal P xs Start Size \<le> i \<longrightarrow> i < Start + Size \<longrightarrow> \<not> P (xs ! i))"
  using assms
proof (induction P xs Start Size rule: LowerBoundInternal.induct)
  case (1 P xs Start Size)
  show ?case
  proof (cases "0 < Size")
    case False
    then have "LowerBoundInternal P xs Start Size = Start"
      by (subst LowerBoundInternal.simps) simp
    with False show ?thesis by simp
  next
    case True
    define h where "h = Size div 2"
    define c where "c = Start + h"
    define s where "s = (if P (xs ! c) then c + Size mod 2 else Start)"
    let ?r = "LowerBoundInternal P xs s h"
    have step: "LowerBoundInternal P xs Start Size = ?r"
      using True
      by (subst LowerBoundInternal.simps) (simp add: Let_def h_def c_def s_def)
    have mono: "P (xs ! i)" if "Start \<le> i" "i \<le> j" "j < Start + Size" "P (xs ! j)" for i j
      using "1.prems"(2) that by blast
    have c_in: "c < Start + Size"
      using True by (simp add: c_def h_def)
    have halves: "h + Size mod 2 + h = Size"
      unfolding h_def by presburger
    have sh: "s + h \<le> Start + Size" "Start \<le> s"
      using halves by (auto simp: s_def c_def)
    have sh_eq: "s + h = Start + Size" if "P (xs ! c)"
      using that halves by (simp add: s_def c_def)
    have sh_eq': "s = Start" if "\<not> P (xs ! c)"
      using that by (simp add: s_def)
    have a: "s + h \<le> length xs"
      using sh(1) "1.prems"(1) by simp
    have b: "\<forall>i j. s \<le> i \<longrightarrow> i \<le> j \<longrightarrow> j < s + h \<longrightarrow> P (xs ! j) \<longrightarrow> P (xs ! i)"
    proof (intro allI impI)
      fix i j
      assume "s \<le> i" "i \<le> j" "j < s + h" "P (xs ! j)"
      with sh have "Start \<le> i" "j < Start + Size" by simp_all
      from mono [OF this(1) \<open>i \<le> j\<close> this(2) \<open>P (xs ! j)\<close>] show "P (xs ! i)" .
    qed
    note IH = "1.IH" [OF True refl refl refl refl, folded h_def, folded c_def, folded s_def]
    from IH [OF a b]
    have r_lo: "s \<le> ?r" and r_hi: "?r \<le> s + h"
      and r_P: "\<And>i. s \<le> i \<Longrightarrow> i < ?r \<Longrightarrow> P (xs ! i)"
      and r_notP: "\<And>i. ?r \<le> i \<Longrightarrow> i < s + h \<Longrightarrow> \<not> P (xs ! i)"
      by blast+
    have lo: "Start \<le> ?r"
      using r_lo sh(2) by (rule order_trans [rotated])
    have hi: "?r \<le> Start + Size"
      using r_hi sh(1) by (rule order_trans)
    have below: "P (xs ! i)" if "Start \<le> i" "i < ?r" for i
    proof (cases "i < s")
      case True
      then have pc: "P (xs ! c)" and "i \<le> c"
        using that(1) by (auto simp: s_def split: if_splits)
      from mono [OF that(1) \<open>i \<le> c\<close> c_in pc] show ?thesis .
    next
      case False
      then have "s \<le> i" by simp
      from r_P [OF this that(2)] show ?thesis .
    qed
    have above: "\<not> P (xs ! i)" if "?r \<le> i" "i < Start + Size" for i
    proof (cases "i < s + h")
      case True
      from r_notP [OF that(1) True] show ?thesis .
    next
      case False
      show ?thesis
      proof (cases "P (xs ! c)")
        case True
        from sh_eq [OF True] False that(2) show ?thesis by simp
      next
        case npc: False
        from sh_eq' [OF npc] False have "c \<le> i" by (simp add: c_def)
        show ?thesis
        proof
          assume "P (xs ! i)"
          from mono [OF _ \<open>c \<le> i\<close> that(2) this] have "P (xs ! c)"
            by (simp add: c_def)
          with npc show False ..
        qed
      qed
    qed
    from lo hi below above show ?thesis
      unfolding step by blast
  qed
qed

lemma LowerBoundInternal_is_lower_bound:
  assumes "prefix_closed P xs"
  shows "is_lower_bound P xs (LowerBoundInternal P xs 0 (length xs))"
proof -
  have a: "0 + length xs \<le> length xs" by simp
  have b: "\<forall>i j. 0 \<le> i \<longrightarrow> i \<le> j \<longrightarrow> j < 0 + length xs \<longrightarrow> P (xs ! j) \<longrightarrow> P (xs ! i)"
    using assms unfolding prefix_closed_def by simp
  from LowerBoundInternal_correct [OF a b]
  have "LowerBoundInternal P xs 0 (length xs) \<le> length xs"
    and "\<And>i. i < LowerBoundInternal P xs 0 (length xs) \<Longrightarrow> P (xs ! i)"
    and "\<And>i. LowerBoundInternal P xs 0 (length xs) \<le> i \<Longrightarrow> i < length xs \<Longrightarrow> \<not> P (xs ! i)"
    by simp_all
  then show ?thesis
    unfolding is_lower_bound_def by blast
qed

lemma is_lower_bound_unique:
  assumes "is_lower_bound P xs r" and "is_lower_bound P xs r'"
  shows "r = r'"
proof (rule ccontr)
  assume "r \<noteq> r'"
  then consider "r < r'" | "r' < r" by linarith
  then show False
  proof cases
    case 1
    from assms(2) 1 have "P (xs ! r)" "r < length xs"
      unfolding is_lower_bound_def by auto
    moreover from assms(1) this(2) have "\<not> P (xs ! r)"
      unfolding is_lower_bound_def by auto
    ultimately show False by simp
  next
    case 2
    from assms(1) 2 have "P (xs ! r')" "r' < length xs"
      unfolding is_lower_bound_def by auto
    moreover from assms(2) this(2) have "\<not> P (xs ! r')"
      unfolding is_lower_bound_def by auto
    ultimately show False by simp
  qed
qed

lemma sorted_prefix_closed_less: "sorted xs \<Longrightarrow> prefix_closed (\<lambda>x. x < v) xs"
  unfolding prefix_closed_def
proof (intro allI impI)
  fix i j
  assume "sorted xs" "i \<le> j" "j < length xs" "xs ! j < v"
  from sorted_nth_mono [OF this(1,2,3)] this(4) show "xs ! i < v" by simp
qed

lemma sorted_prefix_closed_le: "sorted xs \<Longrightarrow> prefix_closed (\<lambda>x. \<not> v < x) xs"
  unfolding prefix_closed_def
proof (intro allI impI)
  fix i j
  assume "sorted xs" "i \<le> j" "j < length xs" "\<not> v < xs ! j"
  from sorted_nth_mono [OF this(1,2,3)] this(4) show "\<not> v < xs ! i" by simp
qed

lemma LowerBound_is_lower_bound:
  "sorted xs \<Longrightarrow> is_lower_bound (\<lambda>x. x < v) xs (LowerBound xs v)"
  unfolding LowerBound_def
  by (intro LowerBoundInternal_is_lower_bound sorted_prefix_closed_less)

lemma UpperBound_is_lower_bound:
  "sorted xs \<Longrightarrow> is_lower_bound (\<lambda>x. \<not> v < x) xs (UpperBound xs v)"
  unfolding UpperBound_def
  by (intro LowerBoundInternal_is_lower_bound sorted_prefix_closed_le)

text \<open>Inserting at the lower bound keeps a list sorted.\<close>

lemma sorted_Insert:
  assumes "sorted xs" and "is_lower_bound (\<lambda>x. x < k) xs r"
  shows "sorted (Insert k r xs)"
proof -
  have t: "\<forall>x\<in>set (take r xs). x \<le> k"
  proof
    fix x assume "x \<in> set (take r xs)"
    then obtain i where "i < r" "i < length xs" "x = xs ! i"
      by (auto simp: in_set_conv_nth)
    with assms(2) show "x \<le> k"
      unfolding is_lower_bound_def by auto
  qed
  have d: "\<forall>y\<in>set (drop r xs). k \<le> y"
  proof
    fix y assume "y \<in> set (drop r xs)"
    then obtain i where "i < length xs - r" "y = xs ! (r + i)"
      by (auto simp: in_set_conv_nth)
    with assms(2) show "k \<le> y"
      unfolding is_lower_bound_def by (simp add: not_less)
  qed
  have s: "sorted (take r xs @ drop r xs)"
    using assms(1) by simp
  then have "sorted (take r xs)" "sorted (drop r xs)"
    "\<forall>x\<in>set (take r xs). \<forall>y\<in>set (drop r xs). x \<le> y"
    unfolding sorted_append by auto
  with t d show ?thesis
    unfolding Insert_def by (auto simp: sorted_append)
qed

lemma is_lower_bound_Insert:
  assumes "is_lower_bound (\<lambda>x. x < (k :: 'a :: linorder)) xs r"
  shows "is_lower_bound (\<lambda>x. x < k) (Insert k r xs) r"
proof -
  from assms have r: "r \<le> length xs"
    and lo: "\<And>i. i < r \<Longrightarrow> xs ! i < k"
    and hi: "\<And>i. r \<le> i \<Longrightarrow> i < length xs \<Longrightarrow> \<not> xs ! i < k"
    unfolding is_lower_bound_def by auto
  have n: "Insert k r xs ! i = (if i < r then xs ! i else if i = r then k else xs ! (i - 1))"
    if "i \<le> length xs" for i
    using r that by (auto simp: Insert_def nth_append min_def nth_Cons')
  have "\<not> Insert k r xs ! i < k" if "r \<le> i" "i < length (Insert k r xs)" for i
  proof (cases "i = r")
    case True
    with r n [of i] show ?thesis by simp
  next
    case False
    with that r have "r \<le> i - 1" "i - 1 < length xs" "i \<le> length xs"
      by (auto simp: Insert_def)
    with hi [of "i - 1"] n [of i] False that show ?thesis by simp
  qed
  moreover have "Insert k r xs ! i < k" if "i < r" for i
    using that r lo [of i] n [of i] by simp
  ultimately show ?thesis
    using r unfolding is_lower_bound_def by (simp add: Insert_def)
qed

section \<open>Binding type characters\<close>

text \<open>
  Claim C8, as amended. Each of the nine listed binding kinds maps to its own
  character (b, c, p, w, x, y, z, v, a), in every build; the nine characters differ
  from one another and none of them is the character with code 0. For a kind that is
  not listed, the packed uniform buffer among them, a build that compiles checks in
  ends in the failed assertion and no character comes back; a build that compiles
  checks out returns the character with code 0.
\<close>

theorem GetBindingTypeChar_table:
  "GetBindingTypeChar DO_CHECK UniformBuffer = Inr CHR ''b''
   \<and> GetBindingTypeChar DO_CHECK CombinedImageSampler = Inr CHR ''c''
   \<and> GetBindingTypeChar DO_CHECK Sampler = Inr CHR ''p''
   \<and> GetBindingTypeChar DO_CHECK Image = Inr CHR ''w''
   \<and> GetBindingTypeChar DO_CHECK UniformTexelBuffer = Inr CHR ''x''
   \<and> GetBindingTypeChar DO_CHECK StorageImage = Inr CHR ''y''
   \<and> GetBindingTypeChar DO_CHECK StorageTexelBuffer = Inr CHR ''z''
   \<and> GetBindingTypeChar DO_CHECK StorageBuffer = Inr CHR ''v''
   \<and> GetBindingTypeChar DO_CHECK InputAttachment = Inr CHR ''a''
   \<and> distinct (map (GetBindingTypeChar DO_CHECK) listed_kinds)
   \<and> Inr (CHR 0x00) \<notin> set (map (GetBindingTypeChar DO_CHECK) listed_kinds)
   \<and> (\<forall>t. t \<notin> set listed_kinds \<longrightarrow>
        GetBindingTypeChar True t = Inl CheckFailed
        \<and> GetBindingTypeChar False t = Inr (CHR 0x00))
   \<and> PackedUniformBuffer \<notin> set listed_kinds"
proof -
  have "GetBindingTypeChar True t = Inl CheckFailed \<and> GetBindingTypeChar False t = Inr (CHR 0x00)"
    if "t \<notin> set listed_kinds" for t
    using that by (cases t) (simp_all add: listed_kinds_def check_def)
  then have "\<forall>t. t \<notin> set listed_kinds \<longrightarrow>
        GetBindingTypeChar True t = Inl CheckFailed
        \<and> GetBindingTypeChar False t = Inr (CHR 0x00)"
    by blast
  moreover have "PackedUniformBuffer \<notin> set listed_kinds"
    by (simp add: listed_kinds_def)
  moreover have "distinct (map (GetBindingTypeChar DO_CHECK) listed_kinds)"
    and "Inr (CHR 0x00) \<notin> set (map (GetBindingTypeChar DO_CHECK) listed_kinds)"
    by (simp_all add: listed_kinds_def)
  ultimately show ?thesis by simp
qed

theorem GetBindingTypeChar_table_witness:
  "PackedUniformBuffer \<notin> set listed_kinds
   \<and> GetBindingTypeChar True PackedUniformBuffer = Inl CheckFailed
   \<and> Count \<notin> set listed_kinds
   \<and> GetBindingTypeChar True Count = Inl CheckFailed
   \<and> GetBindingTypeChar False Count = Inr (CHR 0x00)
   \<and> GetBindingTypeChar False Sampler = Inr CHR ''p''"
proof -
  have "Count \<notin> set listed_kinds"
    by (simp add: listed_kinds_def)
  with GetBindingTypeChar_table [of False] show ?thesis by blast
qed

text \<open>
  The claim as it was stated has the request for an unlisted kind fail in every
  build. Where checks are compiled out, the request for the packed uniform buffer
  returns: what comes back is the character with code 0, and no failure.
\<close>

theorem GetBindingTypeChar_unchecked_counterexample:
  "GetBindingTypeChar False PackedUniformBuffer = Inr (CHR 0x00)
   \<and> GetBindingTypeChar False PackedUniformBuffer \<noteq> Inl CheckFailed"
  by (simp add: check_def)

section \<open>Enum discovery for byte tracks\<close>

lemma CollectEnum_instance:
  "CollectEnum n w s = (case instance_enum n w of None \<Rightarrow> s | Some e \<Rightarrow> TSet_Add e s)"
  by (auto simp: CollectEnum_def instance_enum_def FindPropertyByName_def PropertyEnum_def
      split: option.splits FProperty.splits)

text \<open>The loop keeps the elements distinct and gathers exactly the instances' enums.\<close>

lemma fold_CollectEnum:
  "distinct s \<Longrightarrow>
   distinct (fold (CollectEnum n) ws s)
   \<and> set (fold (CollectEnum n) ws s) = set s \<union> set (List.map_filter (instance_enum n) ws)"
proof (induction ws arbitrary: s)
  case Nil
  then show ?case by (simp add: List.map_filter_simps)
next
  case (Cons w ws)
  have d: "distinct (CollectEnum n w s)"
    using Cons.prems by (auto simp: CollectEnum_instance TSet_Add_def split: option.splits)
  have s: "set (CollectEnum n w s) = set s \<union> set (List.map_filter (instance_enum n) [w])"
    by (auto simp: CollectEnum_instance TSet_Add_def List.map_filter_simps split: option.splits)
  from Cons.IH [OF d] s show ?case
    by (auto simp: List.map_filter_simps split: option.splits)
qed

lemma GetEnumForByteTrack_card:
  "GetEnumForByteTrack S h n =
     (if card (discovered_enums S h n) = 1 then Some (the_elem (discovered_enums S h n)) else None)"
proof -
  define xs where "xs = fold (CollectEnum n) (FindObjectsInCurrentSequence S h) []"
  have d: "distinct xs" and s: "set xs = discovered_enums S h n"
    using fold_CollectEnum [of "[]" n "FindObjectsInCurrentSequence S h"]
    by (simp_all add: xs_def discovered_enums_def)
  have c: "card (discovered_enums S h n) = length xs"
    using distinct_card [OF d] s by simp
  have g: "GetEnumForByteTrack S h n = (if length xs = 1 then Some (xs ! 0) else None)"
    unfolding GetEnumForByteTrack_def Let_def xs_def ..
  show ?thesis
  proof (cases "length xs = 1")
    case True
    then obtain x where x: "xs = [x]" by (cases xs) auto
    with s have "discovered_enums S h n = {x}" by auto
    then have "the_elem (discovered_enums S h n) = x" by simp
    with True c x g show ?thesis by simp
  next
    case False
    with c g show ?thesis by simp
  qed
qed

text \<open>
  Claim C9. Enum discovery looks at every live bound instance and collects the enum of
  its enum-backed or byte property (\<open>discovered_enums\<close>). With exactly one distinct
  enum type the new track gets it; with any other count, none or several, \<open>AddTrack\<close>
  returns the track as it was created. For a track created without an enum, the
  track ends up typed if and only if exactly one distinct enum type was found.
\<close>

theorem AddTrack_enum_iff_single:
  "(card (discovered_enums S h n) = 1 \<longrightarrow>
      (\<exists>e. discovered_enums S h n = {e} \<and> AddTrack S NewTrack h n = NewTrack\<lparr>Enum := Some e\<rparr>))
   \<and> (card (discovered_enums S h n) \<noteq> 1 \<longrightarrow> AddTrack S NewTrack h n = NewTrack)
   \<and> (Enum NewTrack = None \<longrightarrow>
        (Enum (AddTrack S NewTrack h n) \<noteq> None) = (card (discovered_enums S h n) = 1))"
proof -
  let ?D = "discovered_enums S h n"
  have one: "\<exists>e. ?D = {e} \<and> AddTrack S NewTrack h n = NewTrack\<lparr>Enum := Some e\<rparr>"
    if c: "card ?D = 1"
  proof -
    from c obtain e where e: "?D = {e}"
      by (auto simp: card_1_singleton_iff)
    then have "the_elem ?D = e" by simp
    with c have "AddTrack S NewTrack h n = NewTrack\<lparr>Enum := Some e\<rparr>"
      by (simp add: AddTrack_def GetEnumForByteTrack_card)
    with e show ?thesis by blast
  qed
  have other: "AddTrack S NewTrack h n = NewTrack" if "card ?D \<noteq> 1"
    using that by (simp add: AddTrack_def GetEnumForByteTrack_card)
  have typed: "(Enum (AddTrack S NewTrack h n) \<noteq> None) = (card ?D = 1)"
    if u: "Enum NewTrack = None"
  proof (cases "card ?D = 1")
    case True
    with one obtain e where "AddTrack S NewTrack h n = NewTrack\<lparr>Enum := Some e\<rparr>"
      by blast
    with True show ?thesis by simp
  next
    case False
    with other u show ?thesis by simp
  qed
  from one other typed show ?thesis by blast
qed

lemma discovered_agreeing: "discovered_enums agreeing_binding 0 ''Mobility'' = {''EMobility''}"
  by (simp add: discovered_enums_def agreeing_binding_def instance_enum_def actor_def
      List.map_filter_simps)

lemma discovered_mixed:
  "discovered_enums mixed_binding 0 ''Mobility'' = {''EMobility'', ''ECollision''}"
  by (simp add: discovered_enums_def mixed_binding_def instance_enum_def actor_def
      List.map_filter_simps)

theorem AddTrack_enum_iff_single_witness:
  "card (discovered_enums agreeing_binding 0 ''Mobility'') = 1
   \<and> AddTrack agreeing_binding \<lparr>Enum = None\<rparr> 0 ''Mobility'' = \<lparr>Enum = Some ''EMobility''\<rparr>
   \<and> card (discovered_enums mixed_binding 0 ''Mobility'') \<noteq> 1
   \<and> AddTrack mixed_binding \<lparr>Enum = None\<rparr> 0 ''Mobility'' = \<lparr>Enum = None\<rparr>"
proof -
  have c1: "card (discovered_enums agreeing_binding 0 ''Mobility'') = 1"
    by (simp add: discovered_agreeing)
  have c2: "card (discovered_enums mixed_binding 0 ''Mobility'') \<noteq> 1"
    by (simp add: discovered_mixed)
  from AddTrack_enum_iff_single [of agreeing_binding 0 "''Mobility''" "\<lparr>Enum = None\<rparr>"] c1
  obtain e where e: "discovered_enums agreeing_binding 0 ''Mobility'' = {e}"
    and a1: "AddTrack agreeing_binding \<lparr>Enum = None\<rparr> 0 ''Mobility''
               = \<lparr>Enum = None\<rparr>\<lparr>Enum := Some e\<rparr>"
    by blast
  from e have "e = ''EMobility''"
    unfolding discovered_agreeing by (rule singleton_inject [symmetric])
  with a1 have r1:
    "AddTrack agreeing_binding \<lparr>Enum = None\<rparr> 0 ''Mobility'' = \<lparr>Enum = Some ''EMobility''\<rparr>"
    by simp
  from AddTrack_enum_iff_single [of mixed_binding 0 "''Mobility''" "\<lparr>Enum = None\<rparr>"] c2
  have r2: "AddTrack mixed_binding \<lparr>Enum = None\<rparr> 0 ''Mobility'' = \<lparr>Enum = None\<rparr>"
    by blast
  from c1 r1 c2 r2 show ?thesis by blast
qed

section \<open>Pins of the timeline node\<close>

lemma Pins_CreatePin:
  "Pins (CreatePin d c s n Node) = Pins Node @ [pin d c s n]"
  by (simp add: CreatePin_def pin_def)

lemma TimelineName_CreatePin: "TimelineName (CreatePin d c s n Node) = TimelineName Node"
  by (simp add: CreatePin_def)

lemma Pins_fold_CreatePin:
  "Pins (fold (CreatePin d c s) names Node) = Pins Node @ map (pin d c s) names"
  by (induction names arbitrary: Node) (simp_all add: Pins_CreatePin)

lemma Pins_SetPinAutogeneratedDefaultValue:
  "Pins (SetPinAutogeneratedDefaultValue v (CreatePin d c s n Node))
     = Pins Node @ [(pin d c s n)\<lparr>AutogeneratedDefaultValue := v\<rparr>]"
  by (simp add: SetPinAutogeneratedDefaultValue_def Pins_CreatePin)

lemma TimelineName_SetPinAutogeneratedDefaultValue:
  "TimelineName (SetPinAutogeneratedDefaultValue v Node) = TimelineName Node"
  by (simp add: SetPinAutogeneratedDefaultValue_def)

text \<open>What the function hands to the base class when the template is found.\<close>

lemma AllocateDefaultPins_bound:
  assumes "FindTimelineTemplateByVariableName bp (TimelineName Node) = Some T"
  shows "\<exists>n. AllocateDefaultPins Super (Some bp) Node = Inr (Super n)
             \<and> Pins n = Pins Node @ fixed_pins @ track_pins T"
  using assms unfolding AllocateDefaultPins_def Let_def
  apply (simp add: TimelineName_CreatePin TimelineName_SetPinAutogeneratedDefaultValue)
  apply (rule exI, rule conjI, rule refl)
  apply (simp add: Pins_CreatePin Pins_fold_CreatePin Pins_SetPinAutogeneratedDefaultValue
      fixed_pins_def track_pins_def PlayPinName_def PlayFromStartPinName_def StopPinName_def
      UpdatePinName_def ReversePinName_def ReverseFromEndPinName_def FinishedPinName_def
      NewTimePinName_def SetNewTimePinName_def DirectionPinName_def)
  done

lemma fixed_pins_count:
  "length fixed_pins = 10
   \<and> length (filter is_exec_input fixed_pins) = 6
   \<and> length (filter is_exec_output fixed_pins) = 2"
  by (simp add: fixed_pins_def pin_def is_exec_input_def is_exec_output_def)

text \<open>
  Claim C6, as amended. For a node bound to a template with N float, M vector, K
  linear-colour and J event tracks, \<open>AllocateDefaultPins\<close> appends ten fixed pins (the
  five playback execution inputs, the two execution outputs, the \<open>SetNewTime\<close>
  execution input with the \<open>NewTime\<close> float input whose default is 0.0, and the
  byte-typed \<open>Direction\<close> output) and then exactly N+M+K+J pins named after the tracks:
  a float output per float track, a vector struct output per vector track, a
  linear-colour struct output per colour track and an execution output per event
  track, whatever the order of the tracks within each list.
\<close>

theorem AllocateDefaultPins_pins:
  assumes "FindTimelineTemplateByVariableName bp (TimelineName Node) = Some T"
  shows "\<exists>n. AllocateDefaultPins Super (Some bp) Node = Inr (Super n)
     \<and> Pins n = Pins Node @ fixed_pins
         @ map (pin EGPD_Output PC_Float None) (FloatTracks T)
         @ map (pin EGPD_Output PC_Struct (Some VectorStruct)) (VectorTracks T)
         @ map (pin EGPD_Output PC_Struct (Some LinearColorStruct)) (LinearColorTracks T)
         @ map (pin EGPD_Output PC_Exec None) (EventTracks T)
     \<and> length (Pins n) = length (Pins Node) + 10
         + (length (FloatTracks T) + length (VectorTracks T)
            + length (LinearColorTracks T) + length (EventTracks T))
     \<and> length (filter is_exec_input fixed_pins) = 6
     \<and> length (filter is_exec_output fixed_pins) = 2"
proof -
  from AllocateDefaultPins_bound [OF assms, of Super]
  obtain n where n: "AllocateDefaultPins Super (Some bp) Node = Inr (Super n)"
    and p: "Pins n = Pins Node @ fixed_pins @ track_pins T"
    by blast
  from p have "length (Pins n) = length (Pins Node) + 10
         + (length (FloatTracks T) + length (VectorTracks T)
            + length (LinearColorTracks T) + length (EventTracks T))"
    by (simp add: fixed_pins_count track_pins_def)
  with n p fixed_pins_count show ?thesis
    by (auto simp: track_pins_def)
qed

lemma find_door:
  "FindTimelineTemplateByVariableName (blueprint_with door_template) (TimelineName fresh_node)
     = Some door_template"
  by (simp add: FindTimelineTemplateByVariableName_def blueprint_with_def fresh_node_def)

theorem AllocateDefaultPins_pins_witness:
  "FindTimelineTemplateByVariableName (blueprint_with door_template) (TimelineName fresh_node)
     = Some door_template
   \<and> (\<exists>n. AllocateDefaultPins (\<lambda>n. n) (Some (blueprint_with door_template)) fresh_node = Inr n
          \<and> length (Pins n) = 14
          \<and> Pins n = fixed_pins
             @ [pin EGPD_Output PC_Float None ''Alpha'',
                pin EGPD_Output PC_Struct (Some VectorStruct) ''Offset'',
                pin EGPD_Output PC_Exec None ''Opened'',
                pin EGPD_Output PC_Exec None ''Closed''])"
proof -
  from AllocateDefaultPins_pins [OF find_door, of "\<lambda>n. n"]
  obtain n where "AllocateDefaultPins (\<lambda>n. n) (Some (blueprint_with door_template)) fresh_node = Inr n"
    and "Pins n = Pins fresh_node @ fixed_pins
         @ map (pin EGPD_Output PC_Float None) (FloatTracks door_template)
         @ map (pin EGPD_Output PC_Struct (Some VectorStruct)) (VectorTracks door_template)
         @ map (pin EGPD_Output PC_Struct (Some LinearColorStruct)) (LinearColorTracks door_template)
         @ map (pin EGPD_Output PC_Exec None) (EventTracks door_template)"
    and "length (Pins n) = length (Pins fresh_node) + 10
         + (length (FloatTracks door_template) + length (VectorTracks door_template)
            + length (LinearColorTracks door_template) + length (EventTracks door_template))"
    by blast
  then have "AllocateDefaultPins (\<lambda>n. n) (Some (blueprint_with door_template)) fresh_node = Inr n
      \<and> length (Pins n) = 14
      \<and> Pins n = fixed_pins
             @ [pin EGPD_Output PC_Float None ''Alpha'',
                pin EGPD_Output PC_Struct (Some VectorStruct) ''Offset'',
                pin EGPD_Output PC_Exec None ''Opened'',
                pin EGPD_Output PC_Exec None ''Closed'']"
    by (simp add: fresh_node_def door_template_def)
  with find_door show ?thesis by blast
qed

text \<open>
  The claim as it was stated counts nine fixed pins, five of them execution inputs.
  On a template without tracks the node gets ten pins, six of them execution inputs:
  \<open>SetNewTime\<close> is an execution input of its own next to the \<open>NewTime\<close> float input.
\<close>

theorem AllocateDefaultPins_fixed_counterexample:
  "FindTimelineTemplateByVariableName (blueprint_with trackless_template) (TimelineName fresh_node)
     = Some trackless_template
   \<and> \<not> isl (AllocateDefaultPins (\<lambda>n. n) (Some (blueprint_with trackless_template)) fresh_node)
   \<and> length (Pins (projr (AllocateDefaultPins (\<lambda>n. n)
        (Some (blueprint_with trackless_template)) fresh_node))) = 10
   \<and> length (Pins (projr (AllocateDefaultPins (\<lambda>n. n)
        (Some (blueprint_with trackless_template)) fresh_node))) \<noteq> 0 + 0 + 0 + 0 + (5 + 2 + 1 + 1)
   \<and> length (filter is_exec_input (Pins (projr (AllocateDefaultPins (\<lambda>n. n)
        (Some (blueprint_with trackless_template)) fresh_node)))) = 6"
proof -
  have f: "FindTimelineTemplateByVariableName (blueprint_with trackless_template)
      (TimelineName fresh_node) = Some trackless_template"
    by (simp add: FindTimelineTemplateByVariableName_def blueprint_with_def fresh_node_def)
  from AllocateDefaultPins_bound [OF f, of "\<lambda>n. n"]
  obtain n where n: "AllocateDefaultPins (\<lambda>n. n) (Some (blueprint_with trackless_template)) fresh_node
      = Inr n"
    and p: "Pins n = Pins fresh_node @ fixed_pins @ track_pins trackless_template"
    by blast
  from p have "Pins n = fixed_pins"
    by (simp add: fresh_node_def track_pins_def trackless_template_def)
  with n f fixed_pins_count show ?thesis by simp
qed

section \<open>Frame begin and end records\<close>

lemma unat_drop_bit_7: "unat (drop_bit 7 (v :: 64 word)) = unat v div 128"
  by (simp add: unat_drop_bit_eq, simp add: drop_bit_eq_div)

lemma drop_bit_7_pos: "(0 < drop_bit 7 (v :: 64 word)) = (128 \<le> unat v)"
proof -
  have "(0 < drop_bit 7 v) = (0 < unat (drop_bit 7 v))"
    by (simp only: word_less_nat_alt unat_0)
  also have "\<dots> = (0 < unat v div 128)"
    by (simp only: unat_drop_bit_7)
  also have "\<dots> = (128 \<le> unat v)"
    by (simp add: div_greater_zero_iff)
  finally show ?thesis .
qed

lemma Encode7bit_length:
  "length (Encode7bit v) = (if 128 \<le> unat v then Suc (length (Encode7bit (drop_bit 7 v))) else 1)"
  by (subst Encode7bit.simps) (simp add: Let_def drop_bit_7_pos)

text \<open>A value below \<open>2 ^ (7 * n)\<close> is encoded in at most \<open>n\<close> bytes.\<close>

lemma Encode7bit_length_le:
  "unat v < 2 ^ (7 * Suc n) \<Longrightarrow> length (Encode7bit v) \<le> Suc n"
proof (induction n arbitrary: v)
  case 0
  then show ?case by (simp add: Encode7bit_length)
next
  case (Suc n)
  show ?case
  proof (cases "128 \<le> unat v")
    case True
    from Suc.prems have "unat v < 128 * 2 ^ (7 * Suc n)"
      by (simp add: power_add)
    then have "unat v div 128 < 2 ^ (7 * Suc n)"
      by (simp add: less_mult_imp_div_less mult.commute)
    then have "length (Encode7bit (drop_bit 7 v)) \<le> Suc n"
      by (intro Suc.IH) (simp only: unat_drop_bit_7)
    with True show ?thesis by (simp add: Encode7bit_length)
  next
    case False
    then show ?thesis by (simp add: Encode7bit_length)
  qed
qed

text \<open>A value of at least \<open>2 ^ (7 * n)\<close> needs more than \<open>n\<close> bytes.\<close>

lemma Encode7bit_length_gt:
  "2 ^ (7 * n) \<le> unat v \<Longrightarrow> n < length (Encode7bit v)"
proof (induction n arbitrary: v)
  case 0
  then show ?case by (simp add: Encode7bit_length)
next
  case (Suc n)
  from Suc.prems have b: "128 * 2 ^ (7 * n) \<le> unat v"
    by (simp add: power_add)
  then have "2 ^ (7 * n) \<le> unat v div 128"
    by (simp add: less_eq_div_iff_mult_less_eq mult.commute)
  then have "n < length (Encode7bit (drop_bit 7 v))"
    by (intro Suc.IH) (simp only: unat_drop_bit_7)
  moreover have "128 \<le> unat v"
  proof -
    have "(128::nat) \<le> 128 * 2 ^ (7 * n)" by simp
    from this b show ?thesis by (rule order_trans)
  qed
  ultimately show ?case by (simp add: Encode7bit_length)
qed

lemma Encode7bit_fits: "v < 2 ^ 63 \<Longrightarrow> length (Encode7bit v) \<le> 9"
proof -
  assume "v < 2 ^ 63"
  then have "unat v < 2 ^ (7 * Suc 8)"
    by (simp add: word_less_nat_alt)
  from Encode7bit_length_le [OF this] show ?thesis by simp
qed

lemma Encode7bit_overflows: "2 ^ 63 \<le> v \<Longrightarrow> length (Encode7bit v) = 10"
proof -
  assume "2 ^ 63 \<le> v"
  then have "2 ^ (7 * 9) \<le> unat v"
    by (simp add: word_le_nat_alt)
  then have "9 < length (Encode7bit v)" by (rule Encode7bit_length_gt)
  moreover have "unat v < 2 ^ (7 * Suc 9)"
    using unsigned_less [of v, where 'a = nat] by simp
  from Encode7bit_length_le [OF this] have "length (Encode7bit v) \<le> 10" by simp
  ultimately show ?thesis by simp
qed

text \<open>
  What the two functions do while the encoding fits the buffer. With the frame channel
  disabled, \<open>OutputBeginFrame\<close> and \<open>OutputEndFrame\<close> return the state as it was: no
  record, no change of \<open>LastFrameCycle\<close>. With the channel enabled and a cycle delta
  below \<open>2 ^ 63\<close>, each call appends exactly one record of the begin or end type of
  its frame kind, whose attachment is the 7-bit encoding of the delta to the cycle
  stored for that kind (at most nine bytes), and stores the current cycle for that
  kind alone.
\<close>

lemma OutputFrame_effect:
  "OutputBeginFrame False c k T = Inr T
   \<and> OutputEndFrame False c k T = Inr T
   \<and> (c - LastFrameCycle T k < 2 ^ 63 \<longrightarrow>
        OutputBeginFrame True c k T =
          Inr (T\<lparr>LastFrameCycle := (LastFrameCycle T)(k := c),
                 FrameChannelLog := FrameChannelLog T @
                   [\<lparr>Event = begin_event k, Attachment = Encode7bit (c - LastFrameCycle T k)\<rparr>]\<rparr>)
        \<and> OutputEndFrame True c k T =
          Inr (T\<lparr>LastFrameCycle := (LastFrameCycle T)(k := c),
                 FrameChannelLog := FrameChannelLog T @
                   [\<lparr>Event = end_event k, Attachment = Encode7bit (c - LastFrameCycle T k)\<rparr>]\<rparr>)
        \<and> length (Encode7bit (c - LastFrameCycle T k)) \<le> 9)"
proof -
  have off: "OutputBeginFrame False c k T = Inr T \<and> OutputEndFrame False c k T = Inr T"
    by (simp add: OutputBeginFrame_def OutputEndFrame_def)
  have on: "OutputBeginFrame True c k T =
          Inr (T\<lparr>LastFrameCycle := (LastFrameCycle T)(k := c),
                 FrameChannelLog := FrameChannelLog T @
                   [\<lparr>Event = begin_event k, Attachment = Encode7bit (c - LastFrameCycle T k)\<rparr>]\<rparr>)
        \<and> OutputEndFrame True c k T =
          Inr (T\<lparr>LastFrameCycle := (LastFrameCycle T)(k := c),
                 FrameChannelLog := FrameChannelLog T @
                   [\<lparr>Event = end_event k, Attachment = Encode7bit (c - LastFrameCycle T k)\<rparr>]\<rparr>)
        \<and> length (Encode7bit (c - LastFrameCycle T k)) \<le> 9"
    if d: "c - LastFrameCycle T k < 2 ^ 63"
  proof -
    from d have l: "length (Encode7bit (c - LastFrameCycle T k)) \<le> 9"
      by (rule Encode7bit_fits)
    then have n: "\<not> 9 < length (Encode7bit (c - LastFrameCycle T k))"
      by simp
    show ?thesis
      using l n
      by (cases k)
        (simp_all add: OutputBeginFrame_def OutputEndFrame_def Let_def LogFrameEvent_def
          begin_event_def end_event_def)
  qed
  from off on show ?thesis by blast
qed

lemma Encode7bit_1000: "Encode7bit 1000 = [0xE8, 0x07]"
  by (simp add: Encode7bit.simps [of 1000] Encode7bit.simps [of 7] Let_def)

lemma OutputFrame_effect_at_1000:
  "(1000 :: 64 word) - LastFrameCycle InitialTrace TraceFrameType_Rendering < 2 ^ 63
   \<and> OutputBeginFrame True 1000 TraceFrameType_Rendering InitialTrace =
       Inr \<lparr>LastFrameCycle = (\<lambda>_. 0)(TraceFrameType_Rendering := 1000),
            FrameChannelLog = [\<lparr>Event = BeginRenderFrame, Attachment = [0xE8, 0x07]\<rparr>]\<rparr>
   \<and> OutputEndFrame False 1000 TraceFrameType_Rendering InitialTrace = Inr InitialTrace"
proof -
  have h: "(1000 :: 64 word) - LastFrameCycle InitialTrace TraceFrameType_Rendering < 2 ^ 63"
    by (simp add: InitialTrace_def)
  from OutputFrame_effect [of 1000 TraceFrameType_Rendering InitialTrace] h
  have "OutputBeginFrame True 1000 TraceFrameType_Rendering InitialTrace =
          Inr (InitialTrace\<lparr>LastFrameCycle :=
                   (LastFrameCycle InitialTrace)(TraceFrameType_Rendering := 1000),
                 FrameChannelLog := FrameChannelLog InitialTrace @
                   [\<lparr>Event = begin_event TraceFrameType_Rendering,
                     Attachment = Encode7bit
                       (1000 - LastFrameCycle InitialTrace TraceFrameType_Rendering)\<rparr>]\<rparr>)"
    and "OutputEndFrame False 1000 TraceFrameType_Rendering InitialTrace = Inr InitialTrace"
    by blast+
  then show ?thesis
    using h by (simp add: InitialTrace_def begin_event_def Encode7bit_1000)
qed

text \<open>The buffer is overrun exactly when the delta is \<open>2 ^ 63\<close> or more.\<close>

lemma OutputBeginFrame_overrun_iff:
  "(OutputBeginFrame True c k T = Inl BufferOverrun) = (2 ^ 63 \<le> c - LastFrameCycle T k)"
proof (cases "2 ^ 63 \<le> c - LastFrameCycle T k")
  case True
  then have "length (Encode7bit (c - LastFrameCycle T k)) = 10"
    by (rule Encode7bit_overflows)
  with True show ?thesis
    by (simp add: OutputBeginFrame_def Let_def)
next
  case False
  then have "c - LastFrameCycle T k < 2 ^ 63" by simp
  then have "length (Encode7bit (c - LastFrameCycle T k)) \<le> 9"
    by (rule Encode7bit_fits)
  with False show ?thesis
    by (cases k) (simp_all add: OutputBeginFrame_def Let_def)
qed

text \<open>
  Claim C5 has every enabled call emit a record whose attachment is the encoding of
  the delta, at most nine bytes long. A first enabled call at cycle \<open>2 ^ 63\<close> has a
  delta whose encoding is ten bytes long, one more than the scratch buffer
  \<open>uint8 Buffer[9]\<close> holds: the tenth byte is written past the end of the buffer,
  and the call does not end with the record the claim describes.
\<close>

theorem OutputBeginFrame_overruns_buffer:
  "length (Encode7bit (0x8000000000000000 - LastFrameCycle InitialTrace TraceFrameType_Game)) = 10
   \<and> OutputBeginFrame True 0x8000000000000000 TraceFrameType_Game InitialTrace
       = Inl BufferOverrun"
proof -
  have "(2 ^ 63 :: 64 word) \<le> 0x8000000000000000" by simp
  then have "length (Encode7bit 0x8000000000000000) = 10"
    by (rule Encode7bit_overflows)
  then show ?thesis
    by (simp add: OutputBeginFrame_def Let_def InitialTrace_def)
qed

section \<open>Adding a camera cut\<close>

lemma FirstStartAfter_find:
  "FirstStartAfter t ss e =
     (case find (starts_after t) ss of Some s \<Rightarrow> the (StartFrame s) | None \<Rightarrow> e)"
  by (induction ss) (auto simp: starts_after_def split: option.splits)

lemma FirstStartAfter_cases:
  "FirstStartAfter t ss e = e \<or> t < FirstStartAfter t ss e"
  by (induction ss) (auto split: option.splits)

lemma FindEndTimeForCameraCut_computed:
  "FindEndTimeForCameraCut OwnerScene Track StartTime =
     (if computed_end OwnerScene Track StartTime = StartTime
      then StartTime + HalfTickResolution OwnerScene
      else computed_end OwnerScene Track StartTime)"
  by (auto simp: FindEndTimeForCameraCut_def computed_end_def FirstStartAfter_find Let_def)

lemma computed_end_ge: "StartTime \<le> computed_end OwnerScene Track StartTime"
proof -
  have "computed_end OwnerScene Track StartTime =
      FirstStartAfter StartTime (Sections Track) (max (PlaybackExclusiveUpper OwnerScene) StartTime)"
    by (simp add: computed_end_def FirstStartAfter_find)
  with FirstStartAfter_cases
    [of StartTime "Sections Track" "max (PlaybackExclusiveUpper OwnerScene) StartTime"]
  show ?thesis by auto
qed

text \<open>The end time lies strictly after the start once the half tick resolution is positive.\<close>

lemma FindEndTimeForCameraCut_after_start:
  "0 < HalfTickResolution OwnerScene \<Longrightarrow>
   StartTime < FindEndTimeForCameraCut OwnerScene Track StartTime"
  using computed_end_ge [of StartTime OwnerScene Track]
  by (simp add: FindEndTimeForCameraCut_computed)

lemma FindExistingSection_find:
  "FindExistingSection a b ss = find (occupies a b) ss"
  by (induction ss) (simp_all add: occupies_def)

lemma length_SetCameraBindingID: "length (SetCameraBindingID i b ss) = length ss"
  by (simp add: SetCameraBindingID_def)

text \<open>
  What \<open>AddNewCameraCut\<close> does when half the tick resolution is at least one whole
  frame. Let \<open>E\<close> be the end time \<open>FindEndTimeForCameraCut\<close> computes for the
  requested start: the start of the first section that begins strictly after it, else
  the playback range's exclusive upper bound raised to at least the start
  (\<open>computed_end\<close>), pushed forward by half the tick resolution when that equals the
  start. Then \<open>AddNewCameraCut\<close> hands to the sort and the fix-up of insertion an array
  in which the section it returns occupies \<open>[StartTime, E)\<close> with the requested
  binding, and \<open>StartTime < E\<close>. If a section of the track already occupies exactly
  \<open>[StartTime, E)\<close>, the first such section gets the binding in place and the array
  keeps its length; only otherwise a new section is appended.
\<close>

lemma AddNewCameraCut_no_zero_length_no_duplicate:
  assumes half: "0 < HalfTickResolution OwnerScene"
  shows "\<exists>Added NewSection.
      AddNewCameraCut H OwnerScene NewObject Track Binding StartTime =
        (Track\<lparr>Sections :=
           (if bCanBlend Track
            then FixupConsecutiveBlendingSections H (SortConsecutiveSections H Added) NewSection False
            else FixupConsecutiveSections H (SortConsecutiveSections H Added) NewSection False)\<rparr>,
         NewSection)
      \<and> NewSection \<in> set Added
      \<and> occupies StartTime (FindEndTimeForCameraCut OwnerScene Track StartTime) NewSection
      \<and> CameraBindingID NewSection = Binding
      \<and> StartTime < FindEndTimeForCameraCut OwnerScene Track StartTime
      \<and> FindEndTimeForCameraCut OwnerScene Track StartTime =
          (if computed_end OwnerScene Track StartTime = StartTime
           then StartTime + HalfTickResolution OwnerScene
           else computed_end OwnerScene Track StartTime)
      \<and> (case find (occupies StartTime (FindEndTimeForCameraCut OwnerScene Track StartTime))
                 (Sections Track) of
            Some Existing \<Rightarrow>
              NewSection = Existing\<lparr>CameraBindingID := Binding\<rparr>
              \<and> Added = SetCameraBindingID (SectionId Existing) Binding (Sections Track)
              \<and> length Added = length (Sections Track)
          | None \<Rightarrow>
              NewSection = NewObject\<lparr>StartFrame := Some StartTime,
                  EndFrame := Some (FindEndTimeForCameraCut OwnerScene Track StartTime),
                  CameraBindingID := Binding\<rparr>
              \<and> Added = Sections Track @ [NewSection])"
proof -
  let ?E = "FindEndTimeForCameraCut OwnerScene Track StartTime"
  have gt: "StartTime < ?E"
    using half by (rule FindEndTimeForCameraCut_after_start)
  show ?thesis
  proof (cases "find (occupies StartTime ?E) (Sections Track)")
    case None
    let ?N = "NewObject\<lparr>StartFrame := Some StartTime, EndFrame := Some ?E,
        CameraBindingID := Binding\<rparr>"
    have "AddNewCameraCut H OwnerScene NewObject Track Binding StartTime =
        (Track\<lparr>Sections :=
           (if bCanBlend Track
            then FixupConsecutiveBlendingSections H
                   (SortConsecutiveSections H (Sections Track @ [?N])) ?N False
            else FixupConsecutiveSections H
                   (SortConsecutiveSections H (Sections Track @ [?N])) ?N False)\<rparr>, ?N)"
      using None by (simp add: AddNewCameraCut_def Let_def FindExistingSection_find)
    moreover have "occupies StartTime ?E ?N" "CameraBindingID ?N = Binding"
      by (simp_all add: occupies_def)
    ultimately show ?thesis
      using None gt FindEndTimeForCameraCut_computed [of OwnerScene Track StartTime]
      by (intro exI [of _ "Sections Track @ [?N]"] exI [of _ ?N]) simp
  next
    case (Some Existing)
    let ?N = "Existing\<lparr>CameraBindingID := Binding\<rparr>"
    let ?A = "SetCameraBindingID (SectionId Existing) Binding (Sections Track)"
    from Some have mem: "Existing \<in> set (Sections Track)"
      and occ: "occupies StartTime ?E Existing"
      by (auto simp: find_Some_iff)
    have "AddNewCameraCut H OwnerScene NewObject Track Binding StartTime =
        (Track\<lparr>Sections :=
           (if bCanBlend Track
            then FixupConsecutiveBlendingSections H (SortConsecutiveSections H ?A) ?N False
            else FixupConsecutiveSections H (SortConsecutiveSections H ?A) ?N False)\<rparr>, ?N)"
      using Some by (simp add: AddNewCameraCut_def Let_def FindExistingSection_find)
    moreover have "?N \<in> set ?A"
      using mem by (force simp: SetCameraBindingID_def)
    moreover have "occupies StartTime ?E ?N" "CameraBindingID ?N = Binding"
      using occ by (simp_all add: occupies_def)
    ultimately show ?thesis
      using Some gt FindEndTimeForCameraCut_computed [of OwnerScene Track StartTime]
      by (intro exI [of _ ?A] exI [of _ ?N]) (simp add: length_SetCameraBindingID)
  qed
qed

lemma film_end_200: "FindEndTimeForCameraCut film two_cuts 200 = 12200"
  by (simp add: FindEndTimeForCameraCut_def film_def two_cuts_def cut_def Let_def)

lemma film_end_100: "FindEndTimeForCameraCut film two_cuts 100 = 200"
  by (simp add: FindEndTimeForCameraCut_def film_def two_cuts_def cut_def Let_def)

lemma AddNewCameraCut_film:
  "0 < HalfTickResolution film
   \<and> computed_end film two_cuts 200 = 200
   \<and> AddNewCameraCut idle_helpers film (cut 3 0 0 0) two_cuts 9 200 =
       (\<lparr>Sections = [cut 1 0 100 7, cut 2 100 200 8, cut 3 200 12200 9], bCanBlend = False\<rparr>,
        cut 3 200 12200 9)
   \<and> AddNewCameraCut idle_helpers film (cut 3 0 0 0) two_cuts 9 100 =
       (\<lparr>Sections = [cut 1 0 100 7, cut 2 100 200 9], bCanBlend = False\<rparr>, cut 2 100 200 9)"
proof -
  have h: "0 < HalfTickResolution film" by (simp add: film_def)
  have c: "computed_end film two_cuts 200 = 200"
    by (simp add: computed_end_def film_def two_cuts_def cut_def starts_after_def)
  have f200: "find (occupies 200 12200) (Sections two_cuts) = None"
    by (simp add: two_cuts_def cut_def occupies_def)
  have f100: "find (occupies 100 200) (Sections two_cuts) = Some (cut 2 100 200 8)"
    by (simp add: two_cuts_def cut_def occupies_def)
  from AddNewCameraCut_no_zero_length_no_duplicate
    [OF h, of idle_helpers "cut 3 0 0 0" two_cuts 9 200]
  obtain A N where e: "AddNewCameraCut idle_helpers film (cut 3 0 0 0) two_cuts 9 200 =
        (two_cuts\<lparr>Sections :=
           (if bCanBlend two_cuts
            then FixupConsecutiveBlendingSections idle_helpers
                   (SortConsecutiveSections idle_helpers A) N False
            else FixupConsecutiveSections idle_helpers
                   (SortConsecutiveSections idle_helpers A) N False)\<rparr>, N)"
    and k: "(case find (occupies 200 (FindEndTimeForCameraCut film two_cuts 200))
                 (Sections two_cuts) of
            Some Existing \<Rightarrow>
              N = Existing\<lparr>CameraBindingID := 9\<rparr>
              \<and> A = SetCameraBindingID (SectionId Existing) 9 (Sections two_cuts)
              \<and> length A = length (Sections two_cuts)
          | None \<Rightarrow>
              N = (cut 3 0 0 0)\<lparr>StartFrame := Some 200,
                  EndFrame := Some (FindEndTimeForCameraCut film two_cuts 200),
                  CameraBindingID := 9\<rparr>
              \<and> A = Sections two_cuts @ [N])"
    by blast
  from k have "N = cut 3 200 12200 9 \<and> A = Sections two_cuts @ [N]"
    by (simp add: film_end_200 f200 cut_def)
  with e have r200: "AddNewCameraCut idle_helpers film (cut 3 0 0 0) two_cuts 9 200 =
       (\<lparr>Sections = [cut 1 0 100 7, cut 2 100 200 8, cut 3 200 12200 9], bCanBlend = False\<rparr>,
        cut 3 200 12200 9)"
    by (simp add: idle_helpers_def two_cuts_def)
  from AddNewCameraCut_no_zero_length_no_duplicate
    [OF h, of idle_helpers "cut 3 0 0 0" two_cuts 9 100]
  obtain A' N' where e': "AddNewCameraCut idle_helpers film (cut 3 0 0 0) two_cuts 9 100 =
        (two_cuts\<lparr>Sections :=
           (if bCanBlend two_cuts
            then FixupConsecutiveBlendingSections idle_helpers
                   (SortConsecutiveSections idle_helpers A') N' False
            else FixupConsecutiveSections idle_helpers
                   (SortConsecutiveSections idle_helpers A') N' False)\<rparr>, N')"
    and k': "(case find (occupies 100 (FindEndTimeForCameraCut film two_cuts 100))
                 (Sections two_cuts) of
            Some Existing \<Rightarrow>
              N' = Existing\<lparr>CameraBindingID := 9\<rparr>
              \<and> A' = SetCameraBindingID (SectionId Existing) 9 (Sections two_cuts)
              \<and> length A' = length (Sections two_cuts)
          | None \<Rightarrow>
              N' = (cut 3 0 0 0)\<lparr>StartFrame := Some 100,
                  EndFrame := Some (FindEndTimeForCameraCut film two_cuts 100),
                  CameraBindingID := 9\<rparr>
              \<and> A' = Sections two_cuts @ [N'])"
    by blast
  from k' have "N' = cut 2 100 200 9
      \<and> A' = SetCameraBindingID 2 9 (Sections two_cuts)"
    by (simp add: film_end_100 f100 cut_def)
  then have "N' = cut 2 100 200 9 \<and> A' = [cut 1 0 100 7, cut 2 100 200 9]"
    by (simp add: SetCameraBindingID_def two_cuts_def cut_def)
  with e' have r100: "AddNewCameraCut idle_helpers film (cut 3 0 0 0) two_cuts 9 100 =
       (\<lparr>Sections = [cut 1 0 100 7, cut 2 100 200 9], bCanBlend = False\<rparr>, cut 2 100 200 9)"
    by (simp add: idle_helpers_def two_cuts_def)
  from h c r200 r100 show ?thesis by blast
qed

text \<open>
  Claim C2 has \<open>AddNewCameraCut\<close> never produce a section of zero length: where the
  computed end equals the requested start, the end is pushed forward by half the tick
  resolution. The source adds the whole-frame part of \<open>.5f * GetTickResolution()\<close>,
  and with a tick resolution of one tick per second that part is 0. A camera cut
  requested at frame 200, the end of the playback range and of the last section, then
  gets the range \<open>[200, 200)\<close>, whatever the helpers are, and is appended to the
  track: the section of zero length that the comment in \<open>FindEndTimeForCameraCut\<close>
  calls not usable.
\<close>

theorem AddNewCameraCut_zero_length_at_unit_tick_resolution:
  "FindEndTimeForCameraCut unit_tick_film two_cuts 200 = 200
   \<and> StartFrame (snd (AddNewCameraCut H unit_tick_film NewObject two_cuts Binding 200)) = Some 200
   \<and> EndFrame (snd (AddNewCameraCut H unit_tick_film NewObject two_cuts Binding 200)) = Some 200
   \<and> AddNewCameraCut idle_helpers unit_tick_film (cut 3 0 0 0) two_cuts 9 200 =
       (\<lparr>Sections = [cut 1 0 100 7, cut 2 100 200 8, cut 3 200 200 9], bCanBlend = False\<rparr>,
        cut 3 200 200 9)"
proof -
  have e: "FindEndTimeForCameraCut unit_tick_film two_cuts 200 = 200"
    by (simp add: FindEndTimeForCameraCut_def unit_tick_film_def two_cuts_def cut_def Let_def)
  have f: "FindExistingSection 200 200 (Sections two_cuts) = None"
    by (simp add: two_cuts_def cut_def)
  have "StartFrame (snd (AddNewCameraCut H unit_tick_film NewObject two_cuts Binding 200)) = Some 200"
    and "EndFrame (snd (AddNewCameraCut H unit_tick_film NewObject two_cuts Binding 200)) = Some 200"
    by (simp_all add: AddNewCameraCut_def Let_def e f)
  moreover have "AddNewCameraCut idle_helpers unit_tick_film (cut 3 0 0 0) two_cuts 9 200 =
       (\<lparr>Sections = [cut 1 0 100 7, cut 2 100 200 8, cut 3 200 200 9], bCanBlend = False\<rparr>,
        cut 3 200 200 9)"
    by (simp add: AddNewCameraCut_def Let_def FindEndTimeForCameraCut_def unit_tick_film_def
        idle_helpers_def two_cuts_def cut_def)
  ultimately show ?thesis
    using e by blast
qed

section \<open>Removing a camera cut\<close>

text \<open>
  Claim C1 says that removal runs the fix-up of insertion, the blend-aware one on a
  track that can blend, before the section leaves the array, and sorts afterwards. On
  a track that can blend, \<open>RemoveSectionAt\<close> runs the plain fix-up, and
  \<open>RemoveSection\<close> runs the plain fix-up on the array the section has already left,
  with no sort of its own. \<open>AddNewCameraCut\<close> and \<open>OnSectionMoved\<close> choose the
  blend-aware fix-up on the same track.
\<close>

theorem RemoveSection_blend_runs_plain_fixup:
  "RemoveSectionAt H two_blended_cuts 0 =
     (case RemoveAt 0 (FixupConsecutiveSections H [cut 1 0 100 7, cut 2 100 200 8]
                         (cut 1 0 100 7) True) of
        Inl failure \<Rightarrow> Inl failure
      | Inr Removed \<Rightarrow> Inr (two_blended_cuts\<lparr>Sections := SortConsecutiveSections H Removed\<rparr>))
   \<and> RemoveSection H two_blended_cuts (cut 1 0 100 7) =
       two_blended_cuts\<lparr>Sections :=
         FixupConsecutiveSections H [cut 2 100 200 8] (cut 1 0 100 7) True\<rparr>
   \<and> removal_fixup H two_blended_cuts (cut 1 0 100 7) =
       FixupConsecutiveBlendingSections H [cut 1 0 100 7, cut 2 100 200 8] (cut 1 0 100 7) True
   \<and> OnSectionMoved H two_blended_cuts (cut 1 0 100 7) =
       two_blended_cuts\<lparr>Sections :=
         FixupConsecutiveBlendingSections H [cut 1 0 100 7, cut 2 100 200 8]
           (cut 1 0 100 7) False\<rparr>"
  by (simp add: RemoveSectionAt_def RemoveSection_def removal_fixup_def OnSectionMoved_def
      two_blended_cuts_def cut_def Let_def split: sum.splits)

section \<open>The sorted parameter table\<close>

lemma CompareFunc_less:
  "CompareFunc (ProjectionFunc p) h
     = ((Association p, Index p) < (HashedAssociation h, HashedIndex h))"
  by (auto simp: CompareFunc_def ProjectionFunc_def)

lemma entry_inv_length:
  assumes "entry_inv GetHash E"
  shows "length (ParameterInfos E) = length (NameHashes E)"
    and "length (ExpressionGuids E) = length (NameHashes E)"
    and "length (Overrides E) = length (NameHashes E)"
  using assms unfolding entry_inv_def by blast+

lemma entry_inv_hashes:
  "entry_inv GetHash E \<Longrightarrow> NameHashes E = map (\<lambda>p. GetHash (Name p)) (ParameterInfos E)"
  unfolding entry_inv_def by blast

lemma entry_inv_sorted: "entry_inv GetHash E \<Longrightarrow> sorted (entry_keys E)"
  unfolding entry_inv_def by blast

lemma length_entry_keys:
  "entry_inv GetHash E \<Longrightarrow> length (entry_keys E) = length (NameHashes E)"
  using entry_inv_length(1) [of GetHash E] by (simp add: entry_keys_def)

lemma nth_entry_keys:
  "entry_inv GetHash E \<Longrightarrow> i < length (NameHashes E) \<Longrightarrow>
   entry_keys E ! i
     = (NameHashes E ! i, Association (ParameterInfos E ! i), Index (ParameterInfos E ! i))"
  using entry_inv_length(1) [of GetHash E] by (simp add: entry_keys_def info_key_def)

lemma entry_keys_mono:
  assumes "entry_inv GetHash E" and "i \<le> j" and "j < length (NameHashes E)"
  shows "entry_keys E ! i \<le> entry_keys E ! j"
proof -
  from assms(1) have "sorted (entry_keys E)" by (rule entry_inv_sorted)
  moreover from assms have "j < length (entry_keys E)" by (simp add: length_entry_keys)
  ultimately show ?thesis using assms(2) by (simp add: sorted_nth_mono)
qed

lemma NameHashes_mono:
  assumes "entry_inv GetHash E" and "i \<le> j" and "j < length (NameHashes E)"
  shows "NameHashes E ! i \<le> NameHashes E ! j"
proof -
  from assms have i: "i < length (NameHashes E)" by simp
  from entry_keys_mono [OF assms] show ?thesis
    unfolding nth_entry_keys [OF assms(1) i] nth_entry_keys [OF assms(1,3)]
    by auto
qed

lemma sorted_NameHashes: "entry_inv GetHash E \<Longrightarrow> sorted (NameHashes E)"
  unfolding sorted_iff_nth_mono using NameHashes_mono [of GetHash E] by blast

text \<open>
  The two-stage search returns the lower bound of the key in the keys of the entry:
  every key before the index is less than the key looked for, no key from the index on
  is.
\<close>

lemma FindParameterLowerBoundIndex_is_lower_bound:
  assumes inv: "entry_inv GetHash E"
  shows "is_lower_bound (\<lambda>k. k < hashed_key h) (entry_keys E) (FindParameterLowerBoundIndex E h)"
proof -
  define n where "n = length (NameHashes E)"
  define H where "H = HashedName h"
  define L where "L = LowerBound (NameHashes E) H"
  define U where "U = UpperBound (drop L (NameHashes E)) H"
  define infos where "infos = take U (drop L (ParameterInfos E))"
  define r where "r = LowerBoundBy infos h ProjectionFunc CompareFunc"
  have F: "FindParameterLowerBoundIndex E h = (if L < n then (if 0 < U then L + r else L) else L)"
    by (simp add: FindParameterLowerBoundIndex_def Let_def n_def H_def L_def U_def infos_def r_def)
  have len: "length (entry_keys E) = n" "length (ParameterInfos E) = n"
    using length_entry_keys [OF inv] entry_inv_length(1) [OF inv] by (simp_all add: n_def)
  have key: "entry_keys E ! i
      = (NameHashes E ! i, Association (ParameterInfos E ! i), Index (ParameterInfos E ! i))"
    if "i < n" for i
    using nth_entry_keys [OF inv] that by (simp add: n_def)
  have hk: "hashed_key h = (H, HashedAssociation h, HashedIndex h)"
    by (simp add: hashed_key_def H_def)
  from LowerBound_is_lower_bound [OF sorted_NameHashes [OF inv], of H]
  have L_le: "L \<le> n"
    and L_lo: "\<And>i. i < L \<Longrightarrow> NameHashes E ! i < H"
    and L_hi: "\<And>i. L \<le> i \<Longrightarrow> i < n \<Longrightarrow> \<not> NameHashes E ! i < H"
    unfolding is_lower_bound_def L_def n_def by blast+
  have before_L: "entry_keys E ! i < hashed_key h" if "i < L" for i
  proof -
    from that L_le have "i < n" by simp
    from key [OF this] L_lo [OF that] show ?thesis by (simp add: hk)
  qed
  show ?thesis
  proof (cases "L < n")
    case False
    with L_le have "L = n" by simp
    with False F before_L len show ?thesis
      unfolding is_lower_bound_def by simp
  next
    case Ln: True
    have "sorted (drop L (NameHashes E))"
      using sorted_NameHashes [OF inv] by (rule sorted_wrt_drop)
    from UpperBound_is_lower_bound [OF this, of H]
    have U_le: "U \<le> n - L"
      and U_lo': "\<And>i. i < U \<Longrightarrow> \<not> H < drop L (NameHashes E) ! i"
      and U_hi': "\<And>i. U \<le> i \<Longrightarrow> i < n - L \<Longrightarrow> H < drop L (NameHashes E) ! i"
      unfolding is_lower_bound_def U_def n_def by auto
    have run: "NameHashes E ! i = H" if "L \<le> i" "i < L + U" for i
    proof -
      from that U_le have i: "i < n" by simp
      from that have "i - L < U" by simp
      from U_lo' [OF this] that(1) i have "\<not> H < NameHashes E ! i"
        by (simp add: n_def)
      with L_hi [OF that(1) i] show ?thesis by simp
    qed
    have after_U: "\<not> entry_keys E ! i < hashed_key h" if "L + U \<le> i" "i < n" for i
    proof -
      from that have "U \<le> i - L" "i - L < n - L" by simp_all
      from U_hi' [OF this] that have "H < NameHashes E ! i"
        by (simp add: n_def)
      with key [OF that(2)] show ?thesis by (auto simp: hk)
    qed
    show ?thesis
    proof (cases "0 < U")
      case False
      then have "U = 0" by simp
      with after_U have "\<not> entry_keys E ! i < hashed_key h" if "L \<le> i" "i < n" for i
        using that by simp
      with Ln False F before_L len show ?thesis
        unfolding is_lower_bound_def by simp
    next
      case Upos: True
      have li: "length infos = U"
        using U_le len by (simp add: infos_def)
      have ni: "infos ! i = ParameterInfos E ! (L + i)" if "i < U" for i
        using that U_le len by (simp add: infos_def)
      let ?P = "\<lambda>p. CompareFunc (ProjectionFunc p) h"
      have pc: "prefix_closed ?P infos"
        unfolding prefix_closed_def
      proof (intro allI impI)
        fix i j
        assume ij: "i \<le> j" and j: "j < length infos" and Pj: "?P (infos ! j)"
        from j li have jU: "j < U" by simp
        with ij have iU: "i < U" by simp
        from jU U_le have jn: "L + j < n" by simp
        from iU U_le have "L + i < n" by simp
        note ki = key [OF this] and kj = key [OF jn]
        have hi: "NameHashes E ! (L + i) = H" using run [of "L + i"] iU by simp
        have hj: "NameHashes E ! (L + j) = H" using run [of "L + j"] jU by simp
        from ij jn have "entry_keys E ! (L + i) \<le> entry_keys E ! (L + j)"
          by (intro entry_keys_mono [OF inv]) (simp_all add: n_def)
        then have le: "(Association (infos ! i), Index (infos ! i))
            \<le> (Association (infos ! j), Index (infos ! j))"
          unfolding ki kj hi hj ni [OF iU] ni [OF jU] by simp
        from le Pj show "?P (infos ! i)"
          unfolding CompareFunc_less by (rule le_less_trans)
      qed
      from LowerBoundInternal_is_lower_bound [OF pc]
      have r_le: "r \<le> U"
        and r_lo: "\<And>i. i < r \<Longrightarrow> ?P (infos ! i)"
        and r_hi: "\<And>i. r \<le> i \<Longrightarrow> i < U \<Longrightarrow> \<not> ?P (infos ! i)"
        unfolding is_lower_bound_def r_def LowerBoundBy_def li by blast+
      have in_run: "(entry_keys E ! i < hashed_key h) = ?P (infos ! (i - L))"
        if "L \<le> i" "i < L + U" for i
      proof -
        from that U_le have i: "i < n" by simp
        from that have "i - L < U" by simp
        from ni [OF this] that(1) have "infos ! (i - L) = ParameterInfos E ! i" by simp
        with key [OF i] run [OF that] show ?thesis
          by (simp add: hk CompareFunc_less)
      qed
      have lo: "entry_keys E ! i < hashed_key h" if "i < L + r" for i
      proof (cases "i < L")
        case True
        then show ?thesis by (rule before_L)
      next
        case False
        with that r_le have "L \<le> i" "i < L + U" "i - L < r" by simp_all
        from in_run [OF this(1,2)] r_lo [OF this(3)] show ?thesis by simp
      qed
      have hi: "\<not> entry_keys E ! i < hashed_key h" if "L + r \<le> i" "i < n" for i
      proof (cases "i < L + U")
        case True
        with that have "L \<le> i" "r \<le> i - L" "i - L < U" by simp_all
        from in_run [OF this(1) True] r_hi [OF this(2,3)] show ?thesis by simp
      next
        case False
        then have "L + U \<le> i" by simp
        from after_U [OF this that(2)] show ?thesis .
      qed
      have "L + r \<le> n" using r_le U_le Ln by simp
      with Ln Upos F lo hi len show ?thesis
        unfolding is_lower_bound_def by simp
    qed
  qed
qed

section \<open>Insertion keeps the table sorted\<close>

lemma length_Insert: "length (Insert x i xs) = Suc (length xs)"
  by (simp add: Insert_def)

lemma nth_Insert_same: "i \<le> length xs \<Longrightarrow> Insert x i xs ! i = x"
  by (simp add: Insert_def nth_append)

lemma set_Insert: "set (Insert x i xs) = insert x (set xs)"
proof -
  have "set (take i xs) \<union> set (drop i xs) = set (take i xs @ drop i xs)"
    by (simp only: set_append)
  also have "\<dots> = set xs"
    by (simp only: append_take_drop_id)
  finally show ?thesis by (auto simp: Insert_def)
qed

lemma map_Insert: "map f (Insert x i xs) = Insert (f x) i (map f xs)"
  by (simp add: Insert_def take_map drop_map)

lemma zip_Insert:
  assumes "length xs = length ys"
  shows "zip (Insert x i xs) (Insert y i ys) = Insert (x, y) i (zip xs ys)"
proof -
  have "length (take i xs) = length (take i ys)"
    using assms by simp
  then show ?thesis
    by (simp add: Insert_def take_zip drop_zip)
qed

lemma distinct_Insert: "distinct xs \<Longrightarrow> x \<notin> set xs \<Longrightarrow> distinct (Insert x i xs)"
proof -
  assume d: "distinct xs" and x: "x \<notin> set xs"
  from d have "distinct (take i xs @ drop i xs)"
    by (simp only: append_take_drop_id)
  then have "distinct (take i xs)" "distinct (drop i xs)"
    "set (take i xs) \<inter> set (drop i xs) = {}"
    unfolding distinct_append by blast+
  moreover from x have "x \<notin> set (take i xs)" "x \<notin> set (drop i xs)"
    by (auto dest: in_set_takeD in_set_dropD)
  ultimately show ?thesis by (simp add: Insert_def)
qed

lemma filter_eq_Insert:
  "x \<notin> set xs \<Longrightarrow> filter (\<lambda>p. p = x) (Insert x i xs) = [x]"
proof -
  assume x: "x \<notin> set xs"
  then have "x \<notin> set (take i xs)" "x \<notin> set (drop i xs)"
    by (auto dest: in_set_takeD in_set_dropD)
  then have "filter (\<lambda>p. p = x) (take i xs) = []" "filter (\<lambda>p. p = x) (drop i xs) = []"
    by (auto simp: filter_empty_conv)
  then show ?thesis by (simp add: Insert_def)
qed

lemma hashed_key_HashParameterInfo:
  "hashed_key (HashParameterInfo GetHash p) = info_key (GetHash (Name p)) p"
  by (simp add: hashed_key_def HashParameterInfo_def info_key_def)

text \<open>The entry after an insertion at the index the search returned.\<close>

lemma entry_inv_insert:
  assumes inv: "entry_inv GetHash E"
    and r: "r = FindParameterLowerBoundIndex E (HashParameterInfo GetHash p)"
  shows "entry_inv GetHash
      (E\<lparr>NameHashes := Insert (HashedName (HashParameterInfo GetHash p)) r (NameHashes E),
         ParameterInfos := Insert p r (ParameterInfos E),
         ExpressionGuids := Insert g r (ExpressionGuids E),
         Overrides := Insert ov r (Overrides E)\<rparr>)"
    (is "entry_inv GetHash ?E'")
proof -
  note len = entry_inv_length [OF inv]
  have h: "HashedName (HashParameterInfo GetHash p) = GetHash (Name p)"
    by (simp add: HashParameterInfo_def)
  from FindParameterLowerBoundIndex_is_lower_bound [OF inv, of "HashParameterInfo GetHash p"]
  have lb: "is_lower_bound (\<lambda>k. k < info_key (GetHash (Name p)) p) (entry_keys E) r"
    unfolding r hashed_key_HashParameterInfo .
  have keys: "entry_keys ?E' = Insert (info_key (GetHash (Name p)) p) r (entry_keys E)"
  proof -
    have "zip (Insert (GetHash (Name p)) r (NameHashes E)) (Insert p r (ParameterInfos E))
        = Insert (GetHash (Name p), p) r (zip (NameHashes E) (ParameterInfos E))"
      using len(1) by (intro zip_Insert) simp
    then show ?thesis
      by (simp add: entry_keys_def h map_Insert)
  qed
  have "sorted (entry_keys ?E')"
    unfolding keys using entry_inv_sorted [OF inv] lb by (rule sorted_Insert)
  moreover have "NameHashes ?E' = map (\<lambda>p. GetHash (Name p)) (ParameterInfos ?E')"
    using entry_inv_hashes [OF inv] by (simp add: h map_Insert)
  moreover have "length (ParameterInfos ?E') = length (NameHashes ?E')"
    "length (ExpressionGuids ?E') = length (NameHashes ?E')"
    "length (Overrides ?E') = length (NameHashes ?E')"
    using len by (simp_all add: length_Insert)
  ultimately show ?thesis
    unfolding entry_inv_def by blast
qed

lemma entry_inv_latch:
  assumes "entry_inv GetHash E"
  shows "entry_inv GetHash (E\<lparr>ExpressionGuids := (ExpressionGuids E)[i := g]\<rparr>)"
proof -
  note len = entry_inv_length [OF assms]
  have "entry_keys (E\<lparr>ExpressionGuids := (ExpressionGuids E)[i := g]\<rparr>) = entry_keys E"
    by (simp add: entry_keys_def)
  with entry_inv_sorted [OF assms] entry_inv_hashes [OF assms] len
  show ?thesis
    unfolding entry_inv_def by simp
qed

lemma entry_inv_TryAddToEntry:
  assumes "entry_inv GetHash E"
  shows "entry_inv GetHash (fst (TryAddToEntry GetHash E p g ov))"
  using entry_inv_insert [OF assms refl, where p = p and g = g and ov = ov]
    entry_inv_latch [OF assms] assms
  by (simp add: TryAddToEntry_def Let_def)

lemma Entries_TryAddParameter:
  "Entries (fst (TryAddParameter GetHash P ty p g ov))
     = (Entries P)(ty := fst (TryAddToEntry GetHash (Entries P ty) p g ov))"
  by (simp add: TryAddParameter_def split: prod.splits)

lemma snd_TryAddParameter:
  "snd (TryAddParameter GetHash P ty p g ov) = snd (TryAddToEntry GetHash (Entries P ty) p g ov)"
  by (simp add: TryAddParameter_def split: prod.splits)

lemma entry_inv_ResetEntry: "entry_inv GetHash ResetEntry"
  by (simp add: entry_inv_def ResetEntry_def entry_keys_def)

lemma AddParameters_snoc:
  "AddParameters GetHash (ops @ [a]) = AddParameter GetHash (AddParameters GetHash ops) a"
  by (simp add: AddParameters_def)

text \<open>Every entry of a table built by insertions satisfies the invariant.\<close>

lemma entry_inv_AddParameters: "entry_inv GetHash (Entries (AddParameters GetHash ops) ty)"
proof (induction ops arbitrary: ty rule: rev_induct)
  case Nil
  show ?case
    by (simp add: AddParameters_def ResetParameters_def entry_inv_ResetEntry)
next
  case (snoc a ops)
  show ?case
    unfolding AddParameters_snoc AddParameter_def Entries_TryAddParameter
    using snoc.IH entry_inv_TryAddToEntry [OF snoc.IH]
    by simp
qed

section \<open>Looking a stored parameter up\<close>

lemma set_ParameterInfos_TryAddToEntry:
  assumes "entry_inv GetHash E"
  shows "set (ParameterInfos (fst (TryAddToEntry GetHash E p g ov))) = insert p (set (ParameterInfos E))"
proof -
  define r where "r = FindParameterLowerBoundIndex E (HashParameterInfo GetHash p)"
  show ?thesis
  proof (cases "length (NameHashes E) \<le> r \<or> ParameterInfos E ! r \<noteq> p")
    case True
    then show ?thesis
      by (simp add: TryAddToEntry_def Let_def r_def [symmetric] set_Insert)
  next
    case False
    then have "r < length (ParameterInfos E)" "ParameterInfos E ! r = p"
      using entry_inv_length(1) [OF assms] by simp_all
    then have "p \<in> set (ParameterInfos E)"
      using nth_mem by blast
    then have "insert p (set (ParameterInfos E)) = set (ParameterInfos E)"
      by blast
    with False show ?thesis
      by (simp add: TryAddToEntry_def Let_def r_def [symmetric])
  qed
qed

text \<open>The parameters an entry holds are the ones inserted for its kind.\<close>

lemma set_ParameterInfos_AddParameters:
  "set (ParameterInfos (Entries (AddParameters GetHash ops) ty))
     = Info ` {a \<in> set ops. Kind a = ty}"
proof (induction ops arbitrary: ty rule: rev_induct)
  case Nil
  show ?case
    by (simp add: AddParameters_def ResetParameters_def ResetEntry_def)
next
  case (snoc a ops)
  show ?case
  proof (cases "Kind a = ty")
    case True
    have "set (ParameterInfos (Entries (AddParameters GetHash (ops @ [a])) ty))
        = insert (Info a) (set (ParameterInfos (Entries (AddParameters GetHash ops) ty)))"
      unfolding AddParameters_snoc AddParameter_def Entries_TryAddParameter
      using True set_ParameterInfos_TryAddToEntry [OF entry_inv_AddParameters]
      by simp
    with snoc.IH [of ty] True show ?thesis by auto
  next
    case False
    then have "Entries (AddParameters GetHash (ops @ [a])) ty = Entries (AddParameters GetHash ops) ty"
      unfolding AddParameters_snoc AddParameter_def Entries_TryAddParameter by simp
    with snoc.IH [of ty] False show ?thesis by auto
  qed
qed

lemma info_key_inj:
  assumes "inj_on GetHash N" and "Name p \<in> N" and "Name q \<in> N"
    and "info_key (GetHash (Name p)) p = info_key (GetHash (Name q)) q"
  shows "p = q"
proof -
  from assms(4) have "GetHash (Name p) = GetHash (Name q)"
    and a: "Association p = Association q" and i: "Index p = Index q"
    by (simp_all add: info_key_def)
  with assms(1-3) have "Name p = Name q"
    by (auto dest: inj_onD)
  with a i show ?thesis by simp
qed

text \<open>
  When no other stored parameter has the key of \<open>p\<close>, the search for \<open>p\<close> stops at
  the index that holds \<open>p\<close>.
\<close>

lemma FindParameterLowerBoundIndex_stored:
  assumes inv: "entry_inv GetHash E"
    and mem: "p \<in> set (ParameterInfos E)"
    and uniq: "\<And>q. q \<in> set (ParameterInfos E) \<Longrightarrow>
        info_key (GetHash (Name q)) q = info_key (GetHash (Name p)) p \<Longrightarrow> q = p"
  shows "FindParameterLowerBoundIndex E (HashParameterInfo GetHash p) < length (NameHashes E)
    \<and> ParameterInfos E ! FindParameterLowerBoundIndex E (HashParameterInfo GetHash p) = p"
proof -
  define r where "r = FindParameterLowerBoundIndex E (HashParameterInfo GetHash p)"
  define k where "k = info_key (GetHash (Name p)) p"
  note len = entry_inv_length(1) [OF inv]
  from FindParameterLowerBoundIndex_is_lower_bound [OF inv, of "HashParameterInfo GetHash p"]
  have lo: "\<And>i. i < r \<Longrightarrow> entry_keys E ! i < k"
    and hi: "\<And>i. r \<le> i \<Longrightarrow> i < length (NameHashes E) \<Longrightarrow> \<not> entry_keys E ! i < k"
    unfolding is_lower_bound_def hashed_key_HashParameterInfo r_def k_def
      length_entry_keys [OF inv] by blast+
  have key: "entry_keys E ! i = info_key (GetHash (Name (ParameterInfos E ! i))) (ParameterInfos E ! i)"
    if "i < length (NameHashes E)" for i
  proof -
    from that len have "NameHashes E ! i = GetHash (Name (ParameterInfos E ! i))"
      by (subst entry_inv_hashes [OF inv]) simp
    with nth_entry_keys [OF inv that] show ?thesis
      by (simp add: info_key_def)
  qed
  from mem obtain j where j: "j < length (NameHashes E)" and pj: "ParameterInfos E ! j = p"
    using len by (auto simp: in_set_conv_nth)
  have kj: "entry_keys E ! j = k"
    using key [OF j] pj by (simp add: k_def)
  have rj: "r \<le> j"
  proof (rule ccontr)
    assume "\<not> r \<le> j"
    then have "j < r" by simp
    from lo [OF this] kj show False by simp
  qed
  with j have rn: "r < length (NameHashes E)" by simp
  have "entry_keys E ! r \<le> entry_keys E ! j"
    using inv rj j by (rule entry_keys_mono)
  with hi [OF le_refl rn] kj have "entry_keys E ! r = k" by simp
  with key [OF rn] have "info_key (GetHash (Name (ParameterInfos E ! r))) (ParameterInfos E ! r) = k"
    by simp
  moreover from rn len have "ParameterInfos E ! r \<in> set (ParameterInfos E)"
    by simp
  ultimately have "ParameterInfos E ! r = p"
    unfolding k_def by (intro uniq)
  with rn show ?thesis
    unfolding r_def by simp
qed

lemma distinct_TryAddToEntry:
  assumes inv: "entry_inv GetHash E"
    and d: "distinct (ParameterInfos E)"
    and uniq: "\<And>q. q \<in> set (ParameterInfos E) \<Longrightarrow>
        info_key (GetHash (Name q)) q = info_key (GetHash (Name p)) p \<Longrightarrow> q = p"
  shows "distinct (ParameterInfos (fst (TryAddToEntry GetHash E p g ov)))"
proof -
  define r where "r = FindParameterLowerBoundIndex E (HashParameterInfo GetHash p)"
  show ?thesis
  proof (cases "length (NameHashes E) \<le> r \<or> ParameterInfos E ! r \<noteq> p")
    case True
    have "p \<notin> set (ParameterInfos E)"
    proof
      assume "p \<in> set (ParameterInfos E)"
      from FindParameterLowerBoundIndex_stored [OF inv this uniq] True
      show False by (simp add: r_def)
    qed
    with d have "distinct (Insert p r (ParameterInfos E))"
      by (rule distinct_Insert)
    with True show ?thesis
      by (simp add: TryAddToEntry_def Let_def r_def [symmetric])
  next
    case False
    with d show ?thesis
      by (simp add: TryAddToEntry_def Let_def r_def [symmetric])
  qed
qed

lemma distinct_ParameterInfos_AddParameters:
  assumes "inj_on GetHash (Name ` Info ` set ops)"
  shows "distinct (ParameterInfos (Entries (AddParameters GetHash ops) ty))"
  using assms
proof (induction ops arbitrary: ty rule: rev_induct)
  case Nil
  show ?case
    by (simp add: AddParameters_def ResetParameters_def ResetEntry_def)
next
  case (snoc a ops)
  from snoc.prems have inj: "inj_on GetHash (Name ` Info ` set ops)"
    by (rule inj_on_subset) auto
  note IH = snoc.IH [OF inj]
  show ?case
  proof (cases "Kind a = ty")
    case True
    let ?E = "Entries (AddParameters GetHash ops) ty"
    have u: "q = Info a" if "q \<in> set (ParameterInfos ?E)"
      "info_key (GetHash (Name q)) q = info_key (GetHash (Name (Info a))) (Info a)" for q
    proof -
      from that(1) have "q \<in> Info ` set ops"
        unfolding set_ParameterInfos_AddParameters by auto
      then have "Name q \<in> Name ` Info ` set (ops @ [a])"
        "Name (Info a) \<in> Name ` Info ` set (ops @ [a])"
        by auto
      from info_key_inj [OF snoc.prems this that(2)] show ?thesis .
    qed
    from distinct_TryAddToEntry [OF entry_inv_AddParameters IH u] True
    show ?thesis
      unfolding AddParameters_snoc AddParameter_def Entries_TryAddParameter by simp
  next
    case False
    then have "Entries (AddParameters GetHash (ops @ [a])) ty = Entries (AddParameters GetHash ops) ty"
      unfolding AddParameters_snoc AddParameter_def Entries_TryAddParameter by simp
    with IH show ?thesis by simp
  qed
qed

lemma pairs_ascending_in_run:
  assumes inv: "entry_inv GetHash E" and ij: "i \<le> j" and j: "j < length (NameHashes E)"
    and eq: "NameHashes E ! i = NameHashes E ! j"
  shows "Association (ParameterInfos E ! i) < Association (ParameterInfos E ! j)
    \<or> (Association (ParameterInfos E ! i) = Association (ParameterInfos E ! j)
       \<and> Index (ParameterInfos E ! i) \<le> Index (ParameterInfos E ! j))"
proof -
  from ij j have i: "i < length (NameHashes E)" by simp
  from entry_keys_mono [OF inv ij j] eq show ?thesis
    unfolding nth_entry_keys [OF inv i] nth_entry_keys [OF inv j]
    by auto
qed

text \<open>
  Claim C3, as amended. After any sequence of \<open>TryAddParameter\<close> calls on an empty
  table, and for every parameter kind, the name hashes of the entry are in
  non-decreasing order, and within a run of equal hashes the pairs of association and
  index are in non-decreasing order. If the names inserted have pairwise different
  hashes, then for every parameter inserted before, \<open>FindParameterIndex\<close> on its
  hashed triple returns the one index at which that parameter is stored.
\<close>

theorem parameter_table_sorted_and_searchable:
  "sorted (NameHashes (Entries (AddParameters GetHash ops) ty))
   \<and> (\<forall>i j. i \<le> j \<longrightarrow> j < length (NameHashes (Entries (AddParameters GetHash ops) ty)) \<longrightarrow>
        NameHashes (Entries (AddParameters GetHash ops) ty) ! i
          = NameHashes (Entries (AddParameters GetHash ops) ty) ! j \<longrightarrow>
        Association (ParameterInfos (Entries (AddParameters GetHash ops) ty) ! i)
          < Association (ParameterInfos (Entries (AddParameters GetHash ops) ty) ! j)
        \<or> (Association (ParameterInfos (Entries (AddParameters GetHash ops) ty) ! i)
             = Association (ParameterInfos (Entries (AddParameters GetHash ops) ty) ! j)
           \<and> Index (ParameterInfos (Entries (AddParameters GetHash ops) ty) ! i)
             \<le> Index (ParameterInfos (Entries (AddParameters GetHash ops) ty) ! j)))
   \<and> (inj_on GetHash (Name ` Info ` set ops) \<longrightarrow>
        (\<forall>a\<in>set ops. Kind a = ty \<longrightarrow>
          (\<exists>i<length (ParameterInfos (Entries (AddParameters GetHash ops) ty)).
             FindParameterIndex (AddParameters GetHash ops) ty (HashParameterInfo GetHash (Info a))
               = int i
             \<and> ParameterInfos (Entries (AddParameters GetHash ops) ty) ! i = Info a
             \<and> (\<forall>j<length (ParameterInfos (Entries (AddParameters GetHash ops) ty)).
                  ParameterInfos (Entries (AddParameters GetHash ops) ty) ! j = Info a \<longrightarrow> j = i))))"
proof -
  let ?P = "AddParameters GetHash ops"
  let ?E = "Entries ?P ty"
  have inv: "entry_inv GetHash ?E" by (rule entry_inv_AddParameters)
  note len = entry_inv_length(1) [OF inv]
  have hashes: "sorted (NameHashes ?E)"
    using inv by (rule sorted_NameHashes)
  have pairs: "\<forall>i j. i \<le> j \<longrightarrow> j < length (NameHashes ?E) \<longrightarrow>
        NameHashes ?E ! i = NameHashes ?E ! j \<longrightarrow>
        Association (ParameterInfos ?E ! i) < Association (ParameterInfos ?E ! j)
        \<or> (Association (ParameterInfos ?E ! i) = Association (ParameterInfos ?E ! j)
           \<and> Index (ParameterInfos ?E ! i) \<le> Index (ParameterInfos ?E ! j))"
    using pairs_ascending_in_run [OF inv] by blast
  have search: "\<exists>i<length (ParameterInfos ?E).
             FindParameterIndex ?P ty (HashParameterInfo GetHash (Info a)) = int i
             \<and> ParameterInfos ?E ! i = Info a
             \<and> (\<forall>j<length (ParameterInfos ?E). ParameterInfos ?E ! j = Info a \<longrightarrow> j = i)"
    if inj: "inj_on GetHash (Name ` Info ` set ops)" and a: "a \<in> set ops" and k: "Kind a = ty"
    for a
  proof -
    define r where "r = FindParameterLowerBoundIndex ?E (HashParameterInfo GetHash (Info a))"
    from a k have mem: "Info a \<in> set (ParameterInfos ?E)"
      unfolding set_ParameterInfos_AddParameters by blast
    have u: "q = Info a" if "q \<in> set (ParameterInfos ?E)"
      "info_key (GetHash (Name q)) q = info_key (GetHash (Name (Info a))) (Info a)" for q
    proof -
      from that(1) have "q \<in> Info ` set ops"
        unfolding set_ParameterInfos_AddParameters by auto
      with a have "Name q \<in> Name ` Info ` set ops" "Name (Info a) \<in> Name ` Info ` set ops"
        by auto
      from info_key_inj [OF inj this that(2)] show ?thesis .
    qed
    from FindParameterLowerBoundIndex_stored [OF inv mem u]
    have rn: "r < length (NameHashes ?E)" and pr: "ParameterInfos ?E ! r = Info a"
      unfolding r_def by simp_all
    from rn len have "NameHashes ?E ! r = GetHash (Name (ParameterInfos ?E ! r))"
      by (subst entry_inv_hashes [OF inv]) simp
    with pr have hr: "NameHashes ?E ! r = GetHash (Name (Info a))" by simp
    have hh: "HashedName (HashParameterInfo GetHash (Info a)) = GetHash (Name (Info a))"
      "HashedAssociation (HashParameterInfo GetHash (Info a)) = Association (Info a)"
      "HashedIndex (HashParameterInfo GetHash (Info a)) = Index (Info a)"
      by (simp_all add: HashParameterInfo_def)
    have found: "FindParameterIndex ?P ty (HashParameterInfo GetHash (Info a)) = int r"
      unfolding FindParameterIndex_def Let_def r_def [symmetric] hh
      using rn pr hr by simp
    have d: "distinct (ParameterInfos ?E)"
      using inj by (rule distinct_ParameterInfos_AddParameters)
    from rn len have rl: "r < length (ParameterInfos ?E)" by simp
    have "j = r" if "j < length (ParameterInfos ?E)" "ParameterInfos ?E ! j = Info a" for j
      using nth_eq_iff_index_eq [OF d that(1) rl] that(2) pr by simp
    with rl pr found show ?thesis by blast
  qed
  from hashes pairs search show ?thesis by blast
qed

lemma roughness_tint_table:
  "ParameterInfos (Entries (AddParameters length_hash
      [add_scalar ''Roughness'' DefaultGuid True, add_scalar ''Tint'' (guid 7) False]) Scalar)
    = [param ''Tint'', param ''Roughness'']"
  by code_simp

theorem parameter_table_sorted_and_searchable_witness:
  "inj_on length_hash (Name ` Info ` set
      [add_scalar ''Roughness'' DefaultGuid True, add_scalar ''Tint'' (guid 7) False])
   \<and> ParameterInfos (Entries (AddParameters length_hash
        [add_scalar ''Roughness'' DefaultGuid True, add_scalar ''Tint'' (guid 7) False]) Scalar)
      = [param ''Tint'', param ''Roughness'']
   \<and> FindParameterIndex (AddParameters length_hash
        [add_scalar ''Roughness'' DefaultGuid True, add_scalar ''Tint'' (guid 7) False]) Scalar
        (HashParameterInfo length_hash (param ''Roughness'')) = 1"
proof -
  let ?ops = "[add_scalar ''Roughness'' DefaultGuid True, add_scalar ''Tint'' (guid 7) False]"
  have inj: "inj_on length_hash (Name ` Info ` set ?ops)"
    by (simp add: add_scalar_def param_def length_hash_def)
  have mem: "add_scalar ''Roughness'' DefaultGuid True \<in> set ?ops"
    and kind: "Kind (add_scalar ''Roughness'' DefaultGuid True) = Scalar"
    and info: "Info (add_scalar ''Roughness'' DefaultGuid True) = param ''Roughness''"
    by (simp_all add: add_scalar_def)
  from parameter_table_sorted_and_searchable [of length_hash ?ops Scalar] inj mem kind
  obtain i where i: "i < length (ParameterInfos (Entries (AddParameters length_hash ?ops) Scalar))"
    and f: "FindParameterIndex (AddParameters length_hash ?ops) Scalar
        (HashParameterInfo length_hash (Info (add_scalar ''Roughness'' DefaultGuid True))) = int i"
    and s: "ParameterInfos (Entries (AddParameters length_hash ?ops) Scalar) ! i
        = Info (add_scalar ''Roughness'' DefaultGuid True)"
    by blast
  from i have "i = 0 \<or> i = 1"
    unfolding roughness_tint_table by auto
  moreover have "param ''Tint'' \<noteq> param ''Roughness''"
    by (simp add: param_def)
  ultimately have "i = 1"
    using s unfolding roughness_tint_table info by auto
  with f inj roughness_tint_table show ?thesis
    unfolding info by simp
qed

text \<open>
  The claim as it was stated holds the search to the stored index for every name. Two
  names with one hash, the same association and the same index share a key: the second
  is inserted in front of the first, and the search for the first stops at the second.
  Here \<open>ab\<close> is stored at index 1, and the search for it returns 0, where \<open>cd\<close> is.
\<close>

theorem FindParameterIndex_collision_counterexample:
  "length_hash ''ab'' = length_hash ''cd''
   \<and> ParameterInfos (Entries (AddParameters length_hash
        [add_scalar ''ab'' (guid 1) False, add_scalar ''cd'' (guid 2) False]) Scalar)
      = [param ''cd'', param ''ab'']
   \<and> FindParameterIndex (AddParameters length_hash
        [add_scalar ''ab'' (guid 1) False, add_scalar ''cd'' (guid 2) False]) Scalar
        (HashParameterInfo length_hash (param ''ab'')) = 0
   \<and> ParameterInfos (Entries (AddParameters length_hash
        [add_scalar ''ab'' (guid 1) False, add_scalar ''cd'' (guid 2) False]) Scalar) ! 0
      \<noteq> param ''ab''"
  by code_simp

section \<open>An override placeholder claimed by an expression\<close>

lemma entry_keys_insert:
  assumes "entry_inv GetHash E"
  shows "entry_keys
      (E\<lparr>NameHashes := Insert (GetHash (Name p)) r (NameHashes E),
         ParameterInfos := Insert p r (ParameterInfos E),
         ExpressionGuids := Insert g r (ExpressionGuids E),
         Overrides := Insert ov r (Overrides E)\<rparr>)
     = Insert (info_key (GetHash (Name p)) p) r (entry_keys E)"
proof -
  have "zip (Insert (GetHash (Name p)) r (NameHashes E)) (Insert p r (ParameterInfos E))
      = Insert (GetHash (Name p), p) r (zip (NameHashes E) (ParameterInfos E))"
    using entry_inv_length(1) [OF assms] by (intro zip_Insert) simp
  then show ?thesis
    by (simp add: entry_keys_def map_Insert)
qed

text \<open>
  Two calls for a parameter the entry does not hold yet: the first inserts it at the
  index the search returns, the second finds it there and replaces the identifier.
\<close>

lemma TryAddToEntry_override_then_expression:
  assumes inv: "entry_inv GetHash E"
    and new: "p \<notin> set (ParameterInfos E)"
    and inval: "\<not> IsValid g1"
  shows "\<exists>r \<le> length (ParameterInfos E).
      TryAddToEntry GetHash E p g1 True =
        (E\<lparr>NameHashes := Insert (GetHash (Name p)) r (NameHashes E),
           ParameterInfos := Insert p r (ParameterInfos E),
           ExpressionGuids := Insert g1 r (ExpressionGuids E),
           Overrides := Insert True r (Overrides E)\<rparr>, int r)
      \<and> TryAddToEntry GetHash (fst (TryAddToEntry GetHash E p g1 True)) p g2 False =
        (E\<lparr>NameHashes := Insert (GetHash (Name p)) r (NameHashes E),
           ParameterInfos := Insert p r (ParameterInfos E),
           ExpressionGuids := (Insert g1 r (ExpressionGuids E))[r := g2],
           Overrides := Insert True r (Overrides E)\<rparr>, INDEX_NONE)"
proof -
  define r where "r = FindParameterLowerBoundIndex E (HashParameterInfo GetHash p)"
  define E1 where "E1 = E\<lparr>NameHashes := Insert (GetHash (Name p)) r (NameHashes E),
           ParameterInfos := Insert p r (ParameterInfos E),
           ExpressionGuids := Insert g1 r (ExpressionGuids E),
           Overrides := Insert True r (Overrides E)\<rparr>"
  note len = entry_inv_length [OF inv]
  have h: "HashedName (HashParameterInfo GetHash p) = GetHash (Name p)"
    by (simp add: HashParameterInfo_def)
  from FindParameterLowerBoundIndex_is_lower_bound [OF inv, of "HashParameterInfo GetHash p"]
  have lb: "is_lower_bound (\<lambda>k. k < info_key (GetHash (Name p)) p) (entry_keys E) r"
    unfolding r_def hashed_key_HashParameterInfo .
  then have rn: "r \<le> length (NameHashes E)"
    unfolding is_lower_bound_def length_entry_keys [OF inv] by blast
  have cond: "length (NameHashes E) \<le> r \<or> ParameterInfos E ! r \<noteq> p"
  proof (cases "r < length (NameHashes E)")
    case True
    with len(1) have "ParameterInfos E ! r \<in> set (ParameterInfos E)" by simp
    with new show ?thesis by auto
  next
    case False
    then show ?thesis by simp
  qed
  have first: "TryAddToEntry GetHash E p g1 True = (E1, int r)"
    using cond by (simp add: TryAddToEntry_def Let_def r_def [symmetric] h E1_def)
  have inv1: "entry_inv GetHash E1"
    using entry_inv_insert [OF inv r_def, where g = g1 and ov = True]
    unfolding h E1_def .
  have keys1: "entry_keys E1 = Insert (info_key (GetHash (Name p)) p) r (entry_keys E)"
    unfolding E1_def using inv by (rule entry_keys_insert)
  have "is_lower_bound (\<lambda>k. k < info_key (GetHash (Name p)) p) (entry_keys E1) r"
    unfolding keys1 using lb by (rule is_lower_bound_Insert)
  moreover
  from FindParameterLowerBoundIndex_is_lower_bound [OF inv1, of "HashParameterInfo GetHash p"]
  have "is_lower_bound (\<lambda>k. k < info_key (GetHash (Name p)) p) (entry_keys E1)
      (FindParameterLowerBoundIndex E1 (HashParameterInfo GetHash p))"
    unfolding hashed_key_HashParameterInfo .
  ultimately have again: "FindParameterLowerBoundIndex E1 (HashParameterInfo GetHash p) = r"
    by (rule is_lower_bound_unique [symmetric])
  have at_r: "r < length (NameHashes E1)" "ParameterInfos E1 ! r = p"
    "Overrides E1 ! r = True" "ExpressionGuids E1 ! r = g1"
    using rn len by (simp_all add: E1_def length_Insert nth_Insert_same)
  have second: "TryAddToEntry GetHash E1 p g2 False
      = (E1\<lparr>ExpressionGuids := (ExpressionGuids E1)[r := g2]\<rparr>, INDEX_NONE)"
    using at_r inval by (simp add: TryAddToEntry_def Let_def again)
  from rn len(1) have "r \<le> length (ParameterInfos E)" by simp
  moreover from first have "TryAddToEntry GetHash E p g1 True =
        (E\<lparr>NameHashes := Insert (GetHash (Name p)) r (NameHashes E),
           ParameterInfos := Insert p r (ParameterInfos E),
           ExpressionGuids := Insert g1 r (ExpressionGuids E),
           Overrides := Insert True r (Overrides E)\<rparr>, int r)"
    by (simp add: E1_def)
  moreover from second first have
    "TryAddToEntry GetHash (fst (TryAddToEntry GetHash E p g1 True)) p g2 False =
        (E\<lparr>NameHashes := Insert (GetHash (Name p)) r (NameHashes E),
           ParameterInfos := Insert p r (ParameterInfos E),
           ExpressionGuids := (Insert g1 r (ExpressionGuids E))[r := g2],
           Overrides := Insert True r (Overrides E)\<rparr>, INDEX_NONE)"
    by (simp add: E1_def)
  ultimately show ?thesis by blast
qed

lemma nth_Insert:
  assumes "r \<le> length xs" and "i \<le> length xs"
  shows "Insert x r xs ! i = (if i < r then xs ! i else if i = r then x else xs ! (i - 1))"
proof -
  show ?thesis
  proof (cases "i < r")
    case True
    with assms(1) have "i < length xs" by simp
    with True show ?thesis
      by (simp add: Insert_def nth_append)
  next
    case False
    show ?thesis
    proof (cases "i = r")
      case True
      with assms(1) show ?thesis by (simp add: nth_Insert_same)
    next
      case ne: False
      with False have gt: "r < i" by simp
      then obtain k where k: "i = Suc (r + k)"
        using less_iff_Suc_add by auto
      have "Insert x r xs ! i = (x # drop r xs) ! (i - r)"
        using False assms(1) by (simp add: Insert_def nth_append min_absorb2)
      also have "\<dots> = drop r xs ! k"
        by (simp add: k)
      also have "\<dots> = xs ! (r + k)"
        using assms k by simp
      finally show ?thesis
        using gt k by simp
    qed
  qed
qed

text \<open>
  A placeholder is an entry that an override left with no valid identifier. An
  insertion of another parameter leaves every placeholder of \<open>p\<close> as it is.
\<close>

lemma TryAddToEntry_keeps_placeholder:
  assumes inv: "entry_inv GetHash E" and ne: "q \<noteq> p"
    and ph': "\<forall>i<length (ParameterInfos E). ParameterInfos E ! i = p \<longrightarrow>
        Overrides E ! i \<and> \<not> IsValid (ExpressionGuids E ! i)"
    and i: "i < length (ParameterInfos (fst (TryAddToEntry GetHash E q g ov)))"
    and pi: "ParameterInfos (fst (TryAddToEntry GetHash E q g ov)) ! i = p"
  shows "Overrides (fst (TryAddToEntry GetHash E q g ov)) ! i
    \<and> \<not> IsValid (ExpressionGuids (fst (TryAddToEntry GetHash E q g ov)) ! i)"
proof -
  define r where "r = FindParameterLowerBoundIndex E (HashParameterInfo GetHash q)"
  note len = entry_inv_length [OF inv]
  have ph: "Overrides E ! j \<and> \<not> IsValid (ExpressionGuids E ! j)"
    if "j < length (ParameterInfos E)" "ParameterInfos E ! j = p" for j
    using ph' that by blast
  from FindParameterLowerBoundIndex_is_lower_bound [OF inv, of "HashParameterInfo GetHash q"]
  have rn: "r \<le> length (NameHashes E)"
    unfolding is_lower_bound_def length_entry_keys [OF inv] r_def by blast
  show ?thesis
  proof (cases "length (NameHashes E) \<le> r \<or> ParameterInfos E ! r \<noteq> q")
    case True
    then have E': "fst (TryAddToEntry GetHash E q g ov) =
        E\<lparr>NameHashes := Insert (HashedName (HashParameterInfo GetHash q)) r (NameHashes E),
          ParameterInfos := Insert q r (ParameterInfos E),
          ExpressionGuids := Insert g r (ExpressionGuids E),
          Overrides := Insert ov r (Overrides E)\<rparr>"
      by (simp add: TryAddToEntry_def Let_def r_def [symmetric])
    from i have il: "i \<le> length (ParameterInfos E)"
      unfolding E' by (simp add: length_Insert)
    from rn len have rl: "r \<le> length (ParameterInfos E)" "r \<le> length (ExpressionGuids E)"
      "r \<le> length (Overrides E)"
      by simp_all
    from il len have il': "i \<le> length (ExpressionGuids E)" "i \<le> length (Overrides E)"
      by simp_all
    from pi have pi': "Insert q r (ParameterInfos E) ! i = p"
      unfolding E' by simp
    have nr: "i \<noteq> r"
    proof
      assume "i = r"
      with pi' rl(1) have "q = p" by (simp add: nth_Insert_same)
      with ne show False by simp
    qed
    show ?thesis
    proof (cases "i < r")
      case True
      with pi' have "ParameterInfos E ! i = p"
        by (simp add: nth_Insert [OF rl(1) il])
      moreover from True rl(1) have "i < length (ParameterInfos E)" by simp
      ultimately have "Overrides E ! i \<and> \<not> IsValid (ExpressionGuids E ! i)"
        by (intro ph)
      with True show ?thesis
        unfolding E' by (simp add: nth_Insert [OF rl(2) il'(1)] nth_Insert [OF rl(3) il'(2)])
    next
      case False
      with nr have gt: "r < i" by simp
      with pi' have "ParameterInfos E ! (i - 1) = p"
        by (simp add: nth_Insert [OF rl(1) il])
      moreover from gt il have "i - 1 < length (ParameterInfos E)" by simp
      ultimately have "Overrides E ! (i - 1) \<and> \<not> IsValid (ExpressionGuids E ! (i - 1))"
        by (intro ph)
      with gt show ?thesis
        unfolding E' by (simp add: nth_Insert [OF rl(2) il'(1)] nth_Insert [OF rl(3) il'(2)])
    qed
  next
    case False
    then have at: "ParameterInfos E ! r = q"
      by simp
    have PI: "ParameterInfos (fst (TryAddToEntry GetHash E q g ov)) = ParameterInfos E"
      and OV: "Overrides (fst (TryAddToEntry GetHash E q g ov)) = Overrides E"
      and EG: "ExpressionGuids (fst (TryAddToEntry GetHash E q g ov)) = ExpressionGuids E
        \<or> ExpressionGuids (fst (TryAddToEntry GetHash E q g ov)) = (ExpressionGuids E)[r := g]"
      using False by (simp_all add: TryAddToEntry_def Let_def r_def [symmetric])
    from i pi have i': "i < length (ParameterInfos E)" and pi': "ParameterInfos E ! i = p"
      unfolding PI by simp_all
    from pi' at ne have "i \<noteq> r" by auto
    then have "ExpressionGuids (fst (TryAddToEntry GetHash E q g ov)) ! i = ExpressionGuids E ! i"
      using EG by auto
    with ph [OF i' pi'] show ?thesis
      unfolding OV by simp
  qed
qed

text \<open>The same through a sequence of insertions, none of which is of \<open>p\<close> for its kind.\<close>

lemma AddParameters_keeps_placeholder:
  assumes others: "\<forall>a\<in>set mid. Kind a = ty \<longrightarrow> Info a \<noteq> p"
    and ph: "\<forall>i<length (ParameterInfos (Entries (AddParameters GetHash ops) ty)).
        ParameterInfos (Entries (AddParameters GetHash ops) ty) ! i = p \<longrightarrow>
        Overrides (Entries (AddParameters GetHash ops) ty) ! i
        \<and> \<not> IsValid (ExpressionGuids (Entries (AddParameters GetHash ops) ty) ! i)"
  shows "\<forall>i<length (ParameterInfos (Entries (AddParameters GetHash (ops @ mid)) ty)).
        ParameterInfos (Entries (AddParameters GetHash (ops @ mid)) ty) ! i = p \<longrightarrow>
        Overrides (Entries (AddParameters GetHash (ops @ mid)) ty) ! i
        \<and> \<not> IsValid (ExpressionGuids (Entries (AddParameters GetHash (ops @ mid)) ty) ! i)"
  using others
proof (induction mid rule: rev_induct)
  case Nil
  then show ?case using ph by simp
next
  case (snoc a mid)
  let ?E = "Entries (AddParameters GetHash (ops @ mid)) ty"
  from snoc.prems have rest: "\<forall>a\<in>set mid. Kind a = ty \<longrightarrow> Info a \<noteq> p"
    and last: "Kind a = ty \<longrightarrow> Info a \<noteq> p"
    by simp_all
  note IH = snoc.IH [OF rest]
  have app: "AddParameters GetHash (ops @ mid @ [a])
      = AddParameter GetHash (AddParameters GetHash (ops @ mid)) a"
    using AddParameters_snoc [of GetHash "ops @ mid" a] by simp
  show ?case
  proof (cases "Kind a = ty")
    case True
    with last have ne: "Info a \<noteq> p" by simp
    have E': "Entries (AddParameters GetHash (ops @ mid @ [a])) ty
        = fst (TryAddToEntry GetHash ?E (Info a) (Guid a) (Override a))"
      unfolding app AddParameter_def Entries_TryAddParameter using True by simp
    have inv: "entry_inv GetHash ?E" by (rule entry_inv_AddParameters)
    show ?thesis
      unfolding E'
    proof (intro allI impI)
      fix i
      assume "i < length (ParameterInfos (fst (TryAddToEntry GetHash ?E (Info a) (Guid a) (Override a))))"
        and "ParameterInfos (fst (TryAddToEntry GetHash ?E (Info a) (Guid a) (Override a))) ! i = p"
      with inv ne IH
      show "Overrides (fst (TryAddToEntry GetHash ?E (Info a) (Guid a) (Override a))) ! i
        \<and> \<not> IsValid (ExpressionGuids (fst (TryAddToEntry GetHash ?E (Info a) (Guid a) (Override a))) ! i)"
        by (rule TryAddToEntry_keeps_placeholder)
    qed
  next
    case False
    then have E': "Entries (AddParameters GetHash (ops @ mid @ [a])) ty = ?E"
      unfolding app AddParameter_def Entries_TryAddParameter by simp
    from IH show ?thesis
      unfolding E' .
  qed
qed

text \<open>
  An insertion from an expression finds the placeholder of its parameter, when no
  other stored parameter has its key, and gives it the identifier.
\<close>

lemma TryAddToEntry_claims_placeholder:
  assumes inv: "entry_inv GetHash E"
    and mem: "p \<in> set (ParameterInfos E)"
    and uniq: "\<And>q. q \<in> set (ParameterInfos E) \<Longrightarrow>
        info_key (GetHash (Name q)) q = info_key (GetHash (Name p)) p \<Longrightarrow> q = p"
    and ph: "\<forall>i<length (ParameterInfos E). ParameterInfos E ! i = p \<longrightarrow>
        Overrides E ! i \<and> \<not> IsValid (ExpressionGuids E ! i)"
  shows "\<exists>r<length (ParameterInfos E). ParameterInfos E ! r = p
    \<and> TryAddToEntry GetHash E p g False
        = (E\<lparr>ExpressionGuids := (ExpressionGuids E)[r := g]\<rparr>, INDEX_NONE)"
proof -
  define r where "r = FindParameterLowerBoundIndex E (HashParameterInfo GetHash p)"
  note len = entry_inv_length [OF inv]
  from FindParameterLowerBoundIndex_stored [OF inv mem uniq]
  have rn: "r < length (NameHashes E)" and pr: "ParameterInfos E ! r = p"
    unfolding r_def by simp_all
  from rn len have rl: "r < length (ParameterInfos E)" by simp
  from ph rl pr have "Overrides E ! r" "\<not> IsValid (ExpressionGuids E ! r)"
    by blast+
  with rn pr have "TryAddToEntry GetHash E p g False
        = (E\<lparr>ExpressionGuids := (ExpressionGuids E)[r := g]\<rparr>, INDEX_NONE)"
    by (simp add: TryAddToEntry_def Let_def r_def [symmetric])
  with rl pr show ?thesis by blast
qed

lemma distinct_filter_eq:
  "distinct xs \<Longrightarrow> x \<in> set xs \<Longrightarrow> length (filter (\<lambda>q. q = x) xs) = 1"
  by (induction xs) (auto simp: filter_empty_conv)

text \<open>
  Claim C4, as amended. The names inserted have pairwise different hashes. A
  parameter that the table of its kind does not hold yet is inserted as an override
  with an identifier that is not valid; any insertions of other parameters follow;
  then the parameter is inserted from an expression with the identifier \<open>g2\<close>. The
  first of the two calls returns an index and the second \<open>INDEX_NONE\<close>: it adds no
  entry. Afterwards the entry of the kind holds the parameter exactly once, and where
  it holds the parameter it holds the identifier \<open>g2\<close> of the second call.
\<close>

theorem TryAddParameter_override_then_expression:
  assumes inj: "inj_on GetHash (insert (Name p) (Name ` Info ` (set pre \<union> set mid)))"
    and new: "\<forall>a\<in>set pre \<union> set mid. Kind a = ty \<longrightarrow> Info a \<noteq> p"
    and inval: "\<not> IsValid g1"
  shows "snd (TryAddParameter GetHash (AddParameters GetHash pre) ty p g1 True) \<noteq> INDEX_NONE
    \<and> snd (TryAddParameter GetHash
          (AddParameters GetHash (pre @ \<lparr>Kind = ty, Info = p, Guid = g1, Override = True\<rparr> # mid))
          ty p g2 False) = INDEX_NONE
    \<and> length (filter (\<lambda>q. q = p) (ParameterInfos (Entries (AddParameters GetHash
          (pre @ \<lparr>Kind = ty, Info = p, Guid = g1, Override = True\<rparr> # mid
             @ [\<lparr>Kind = ty, Info = p, Guid = g2, Override = False\<rparr>])) ty))) = 1
    \<and> length (ParameterInfos (Entries (AddParameters GetHash
          (pre @ \<lparr>Kind = ty, Info = p, Guid = g1, Override = True\<rparr> # mid
             @ [\<lparr>Kind = ty, Info = p, Guid = g2, Override = False\<rparr>])) ty))
        = length (ParameterInfos (Entries (AddParameters GetHash
          (pre @ \<lparr>Kind = ty, Info = p, Guid = g1, Override = True\<rparr> # mid)) ty))
    \<and> (\<forall>i<length (ParameterInfos (Entries (AddParameters GetHash
          (pre @ \<lparr>Kind = ty, Info = p, Guid = g1, Override = True\<rparr> # mid
             @ [\<lparr>Kind = ty, Info = p, Guid = g2, Override = False\<rparr>])) ty)).
        ParameterInfos (Entries (AddParameters GetHash
          (pre @ \<lparr>Kind = ty, Info = p, Guid = g1, Override = True\<rparr> # mid
             @ [\<lparr>Kind = ty, Info = p, Guid = g2, Override = False\<rparr>])) ty) ! i = p \<longrightarrow>
        ExpressionGuids (Entries (AddParameters GetHash
          (pre @ \<lparr>Kind = ty, Info = p, Guid = g1, Override = True\<rparr> # mid
             @ [\<lparr>Kind = ty, Info = p, Guid = g2, Override = False\<rparr>])) ty) ! i = g2)"
proof -
  define ov where "ov = \<lparr>Kind = ty, Info = p, Guid = g1, Override = True\<rparr>"
  define ex where "ex = \<lparr>Kind = ty, Info = p, Guid = g2, Override = False\<rparr>"
  define ops where "ops = pre @ [ov]"
  let ?E0 = "Entries (AddParameters GetHash pre) ty"
  let ?E1 = "Entries (AddParameters GetHash ops) ty"
  let ?T2 = "AddParameters GetHash (ops @ mid)"
  let ?E2 = "Entries ?T2 ty"
  let ?E3 = "Entries (AddParameters GetHash ((ops @ mid) @ [ex])) ty"
  have ovs: "Kind ov = ty" "Info ov = p" "Guid ov = g1" "Override ov = True"
    and exs: "Kind ex = ty" "Info ex = p" "Guid ex = g2" "Override ex = False"
    by (simp_all add: ov_def ex_def)
  have inv0: "entry_inv GetHash ?E0" and inv2: "entry_inv GetHash ?E2"
    by (rule entry_inv_AddParameters)+
  have new0: "p \<notin> set (ParameterInfos ?E0)"
    unfolding set_ParameterInfos_AddParameters using new by auto
  from TryAddToEntry_override_then_expression [OF inv0 new0 inval, of g2]
  obtain r where r: "r \<le> length (ParameterInfos ?E0)"
    and e1: "TryAddToEntry GetHash ?E0 p g1 True =
        (?E0\<lparr>NameHashes := Insert (GetHash (Name p)) r (NameHashes ?E0),
           ParameterInfos := Insert p r (ParameterInfos ?E0),
           ExpressionGuids := Insert g1 r (ExpressionGuids ?E0),
           Overrides := Insert True r (Overrides ?E0)\<rparr>, int r)"
    by blast
  have first: "snd (TryAddParameter GetHash (AddParameters GetHash pre) ty p g1 True) \<noteq> INDEX_NONE"
    unfolding snd_TryAddParameter e1 by (simp add: INDEX_NONE_def)
  have E1: "?E1 = ?E0\<lparr>NameHashes := Insert (GetHash (Name p)) r (NameHashes ?E0),
           ParameterInfos := Insert p r (ParameterInfos ?E0),
           ExpressionGuids := Insert g1 r (ExpressionGuids ?E0),
           Overrides := Insert True r (Overrides ?E0)\<rparr>"
    unfolding ops_def AddParameters_snoc AddParameter_def Entries_TryAddParameter ovs
    by (simp add: e1)
  note len0 = entry_inv_length [OF inv0]
  have ph1': "Overrides ?E1 ! i \<and> \<not> IsValid (ExpressionGuids ?E1 ! i)"
    if i: "i < length (ParameterInfos ?E1)" and pi: "ParameterInfos ?E1 ! i = p" for i
  proof -
    from i have il: "i \<le> length (ParameterInfos ?E0)"
      unfolding E1 by (simp add: length_Insert)
    from pi have pi': "Insert p r (ParameterInfos ?E0) ! i = p"
      unfolding E1 by simp
    have "i = r"
    proof (rule ccontr)
      assume n: "i \<noteq> r"
      show False
      proof (cases "i < r")
        case True
        with pi' have "ParameterInfos ?E0 ! i = p"
          by (simp add: nth_Insert [OF r il])
        moreover from True r have "i < length (ParameterInfos ?E0)" by simp
        ultimately have "p \<in> set (ParameterInfos ?E0)"
          using nth_mem by blast
        with new0 show False by simp
      next
        case False
        with n have gt: "r < i" by simp
        with pi' have "ParameterInfos ?E0 ! (i - 1) = p"
          by (simp add: nth_Insert [OF r il])
        moreover from gt il have "i - 1 < length (ParameterInfos ?E0)" by simp
        ultimately have "p \<in> set (ParameterInfos ?E0)"
          using nth_mem by blast
        with new0 show False by simp
      qed
    qed
    moreover from r len0 have "r \<le> length (Overrides ?E0)" "r \<le> length (ExpressionGuids ?E0)"
      by simp_all
    ultimately show ?thesis
      unfolding E1 using inval by (simp add: nth_Insert_same)
  qed
  then have ph1: "\<forall>i<length (ParameterInfos ?E1). ParameterInfos ?E1 ! i = p \<longrightarrow>
      Overrides ?E1 ! i \<and> \<not> IsValid (ExpressionGuids ?E1 ! i)"
    by blast
  from new have others: "\<forall>a\<in>set mid. Kind a = ty \<longrightarrow> Info a \<noteq> p"
    by simp
  from others ph1
  have ph2: "\<forall>i<length (ParameterInfos ?E2). ParameterInfos ?E2 ! i = p \<longrightarrow>
      Overrides ?E2 ! i \<and> \<not> IsValid (ExpressionGuids ?E2 ! i)"
    by (rule AddParameters_keeps_placeholder)
  have names: "Name ` Info ` set (ops @ mid) \<subseteq> insert (Name p) (Name ` Info ` (set pre \<union> set mid))"
    by (auto simp: ops_def ovs)
  from inj names have inj2: "inj_on GetHash (Name ` Info ` set (ops @ mid))"
    by (rule inj_on_subset)
  have mem2: "p \<in> set (ParameterInfos ?E2)"
  proof -
    have "ov \<in> {a \<in> set (ops @ mid). Kind a = ty}"
      by (simp add: ops_def ovs)
    then have "Info ov \<in> Info ` {a \<in> set (ops @ mid). Kind a = ty}"
      by (rule imageI)
    then show ?thesis
      unfolding set_ParameterInfos_AddParameters ovs .
  qed
  have uniq2: "q = p" if "q \<in> set (ParameterInfos ?E2)"
    "info_key (GetHash (Name q)) q = info_key (GetHash (Name p)) p" for q
  proof -
    from that(1) have "q \<in> Info ` set (ops @ mid)"
      unfolding set_ParameterInfos_AddParameters by auto
    then have "Name q \<in> Name ` Info ` set (ops @ mid)"
      by (rule imageI)
    moreover from mem2 have "p \<in> Info ` set (ops @ mid)"
      unfolding set_ParameterInfos_AddParameters by auto
    then have "Name p \<in> Name ` Info ` set (ops @ mid)"
      by (rule imageI)
    ultimately show ?thesis
      using that(2) by (rule info_key_inj [OF inj2])
  qed
  from TryAddToEntry_claims_placeholder [OF inv2 mem2 uniq2 ph2, of g2]
  obtain k where k: "k < length (ParameterInfos ?E2)" and pk: "ParameterInfos ?E2 ! k = p"
    and e3: "TryAddToEntry GetHash ?E2 p g2 False
        = (?E2\<lparr>ExpressionGuids := (ExpressionGuids ?E2)[k := g2]\<rparr>, INDEX_NONE)"
    by blast
  have second: "snd (TryAddParameter GetHash ?T2 ty p g2 False) = INDEX_NONE"
    unfolding snd_TryAddParameter e3 by simp
  have E3: "?E3 = ?E2\<lparr>ExpressionGuids := (ExpressionGuids ?E2)[k := g2]\<rparr>"
    unfolding AddParameters_snoc [of GetHash "ops @ mid" ex] AddParameter_def
      Entries_TryAddParameter exs
    by (simp add: e3)
  have d2: "distinct (ParameterInfos ?E2)"
    using inj2 by (rule distinct_ParameterInfos_AddParameters)
  have once: "length (filter (\<lambda>q. q = p) (ParameterInfos ?E3)) = 1"
    unfolding E3 using distinct_filter_eq [OF d2 mem2] by simp
  have same: "length (ParameterInfos ?E3) = length (ParameterInfos ?E2)"
    unfolding E3 by simp
  note len2 = entry_inv_length [OF inv2]
  have guid: "\<forall>i<length (ParameterInfos ?E3). ParameterInfos ?E3 ! i = p \<longrightarrow>
      ExpressionGuids ?E3 ! i = g2"
  proof (intro allI impI)
    fix i
    assume "i < length (ParameterInfos ?E3)" and "ParameterInfos ?E3 ! i = p"
    then have i: "i < length (ParameterInfos ?E2)" and pi: "ParameterInfos ?E2 ! i = p"
      unfolding E3 by simp_all
    from nth_eq_iff_index_eq [OF d2 i k] pi pk have "i = k" by simp
    with k len2 show "ExpressionGuids ?E3 ! i = g2"
      unfolding E3 by simp
  qed
  have l2: "pre @ \<lparr>Kind = ty, Info = p, Guid = g1, Override = True\<rparr> # mid = ops @ mid"
    and l3: "pre @ \<lparr>Kind = ty, Info = p, Guid = g1, Override = True\<rparr> # mid
             @ [\<lparr>Kind = ty, Info = p, Guid = g2, Override = False\<rparr>] = (ops @ mid) @ [ex]"
    by (simp_all add: ops_def ov_def ex_def)
  from first second once same guid show ?thesis
    unfolding l2 l3 by blast
qed

lemma DefaultGuid_not_valid: "\<not> IsValid DefaultGuid"
  by (simp add: IsValid_def DefaultGuid_def)

lemma tint_after_sheen_table:
  "ParameterInfos (Entries (AddParameters length_hash
      [add_scalar ''Roughness'' (guid 3) False, add_scalar ''Tint'' DefaultGuid True,
       add_scalar ''Sheen'' (guid 5) False, add_scalar ''Tint'' (guid 7) False]) Scalar)
    = [param ''Tint'', param ''Sheen'', param ''Roughness'']"
  by code_simp

theorem TryAddParameter_override_then_expression_witness:
  "inj_on length_hash (insert (Name (param ''Tint''))
      (Name ` Info ` (set [add_scalar ''Roughness'' (guid 3) False]
         \<union> set [add_scalar ''Sheen'' (guid 5) False])))
   \<and> \<not> IsValid DefaultGuid
   \<and> ParameterInfos (Entries (AddParameters length_hash
        [add_scalar ''Roughness'' (guid 3) False, add_scalar ''Tint'' DefaultGuid True,
         add_scalar ''Sheen'' (guid 5) False, add_scalar ''Tint'' (guid 7) False]) Scalar)
      = [param ''Tint'', param ''Sheen'', param ''Roughness'']
   \<and> ExpressionGuids (Entries (AddParameters length_hash
        [add_scalar ''Roughness'' (guid 3) False, add_scalar ''Tint'' DefaultGuid True,
         add_scalar ''Sheen'' (guid 5) False, add_scalar ''Tint'' (guid 7) False]) Scalar) ! 0
      = guid 7"
proof -
  let ?pre = "[add_scalar ''Roughness'' (guid 3) False]"
  let ?mid = "[add_scalar ''Sheen'' (guid 5) False]"
  let ?all = "[add_scalar ''Roughness'' (guid 3) False, add_scalar ''Tint'' DefaultGuid True,
         add_scalar ''Sheen'' (guid 5) False, add_scalar ''Tint'' (guid 7) False]"
  have inj: "inj_on length_hash (insert (Name (param ''Tint''))
      (Name ` Info ` (set ?pre \<union> set ?mid)))"
    by (simp add: add_scalar_def param_def length_hash_def)
  have new: "\<forall>a\<in>set ?pre \<union> set ?mid. Kind a = Scalar \<longrightarrow> Info a \<noteq> param ''Tint''"
    by (simp add: add_scalar_def param_def)
  have l: "?pre @ \<lparr>Kind = Scalar, Info = param ''Tint'', Guid = DefaultGuid, Override = True\<rparr>
      # ?mid @ [\<lparr>Kind = Scalar, Info = param ''Tint'', Guid = guid 7, Override = False\<rparr>] = ?all"
    by (simp add: add_scalar_def)
  from TryAddParameter_override_then_expression
    [OF inj new DefaultGuid_not_valid, of "guid 7"]
  have "\<forall>i<length (ParameterInfos (Entries (AddParameters length_hash ?all) Scalar)).
        ParameterInfos (Entries (AddParameters length_hash ?all) Scalar) ! i = param ''Tint'' \<longrightarrow>
        ExpressionGuids (Entries (AddParameters length_hash ?all) Scalar) ! i = guid 7"
    unfolding l by blast
  then have "ExpressionGuids (Entries (AddParameters length_hash ?all) Scalar) ! 0 = guid 7"
    unfolding tint_after_sheen_table by simp
  with inj DefaultGuid_not_valid tint_after_sheen_table show ?thesis by blast
qed

text \<open>
  The claim as it was stated holds for every name. Two names with one hash, the same
  association and the same index share a key. \<open>Glow\<close>, inserted after the override of
  \<open>Tint\<close>, takes the place in front of it; the search for \<open>Tint\<close> then stops at
  \<open>Glow\<close>, and the insertion from the expression adds a second entry for \<open>Tint\<close>. The
  entry the override left keeps the identifier that is not valid.
\<close>

theorem TryAddParameter_collision_counterexample:
  "length_hash ''Tint'' = length_hash ''Glow''
   \<and> ParameterInfos (Entries (AddParameters length_hash
        [add_scalar ''Tint'' DefaultGuid True, add_scalar ''Glow'' (guid 3) False,
         add_scalar ''Tint'' (guid 7) False]) Scalar)
      = [param ''Tint'', param ''Glow'', param ''Tint'']
   \<and> ExpressionGuids (Entries (AddParameters length_hash
        [add_scalar ''Tint'' DefaultGuid True, add_scalar ''Glow'' (guid 3) False,
         add_scalar ''Tint'' (guid 7) False]) Scalar)
      = [guid 7, guid 3, DefaultGuid]
   \<and> snd (TryAddParameter length_hash (AddParameters length_hash
        [add_scalar ''Tint'' DefaultGuid True, add_scalar ''Glow'' (guid 3) False])
        Scalar (param ''Tint'') (guid 7) False) = 0
   \<and> length (filter (\<lambda>q. q = param ''Tint'') (ParameterInfos (Entries (AddParameters length_hash
        [add_scalar ''Tint'' DefaultGuid True, add_scalar ''Glow'' (guid 3) False,
         add_scalar ''Tint'' (guid 7) False]) Scalar))) = 2"
  by code_simp

section \<open>Rounding to a floating-point format\<close>

lemma finite_exponents:
  "finite (insert (MinExponent f) {e \<in> {MinExponent f..MaxExponent f}. 2 powi e \<le> \<bar>x :: real\<bar>})"
proof -
  have "{e \<in> {MinExponent f..MaxExponent f}. 2 powi e \<le> \<bar>x\<bar>} \<subseteq> {MinExponent f..MaxExponent f}"
    by blast
  then have "finite {e \<in> {MinExponent f..MaxExponent f}. 2 powi e \<le> \<bar>x\<bar>}"
    by (rule finite_subset) simp
  then show ?thesis by (rule finite.insertI)
qed

lemma Exponent_ge_min: "MinExponent f \<le> Exponent f x"
  unfolding Exponent_def by (rule Max_ge [OF finite_exponents]) (rule insertI1)

lemma Exponent_cases:
  "Exponent f x = MinExponent f
   \<or> (MinExponent f \<le> Exponent f x \<and> Exponent f x \<le> MaxExponent f
      \<and> 2 powi Exponent f x \<le> \<bar>x\<bar>)"
proof -
  let ?A = "insert (MinExponent f) {e \<in> {MinExponent f..MaxExponent f}. 2 powi e \<le> \<bar>x\<bar>}"
  have "Max ?A \<in> ?A"
    by (rule Max_in [OF finite_exponents]) (rule insert_not_empty)
  then show ?thesis
    unfolding Exponent_def by auto
qed

lemma Exponent_greatest:
  assumes "MinExponent f \<le> e" and "e \<le> MaxExponent f" and "2 powi e \<le> \<bar>x\<bar>"
  shows "e \<le> Exponent f x"
proof -
  from assms have "e \<in> insert (MinExponent f) {e \<in> {MinExponent f..MaxExponent f}. 2 powi e \<le> \<bar>x\<bar>}"
    by simp
  then show ?thesis
    unfolding Exponent_def by (rule Max_ge [OF finite_exponents])
qed

lemma Exponent_mono:
  assumes "\<bar>x\<bar> \<le> \<bar>y\<bar>"
  shows "Exponent f x \<le> Exponent f y"
proof -
  have "insert (MinExponent f) {e \<in> {MinExponent f..MaxExponent f}. 2 powi e \<le> \<bar>x\<bar>}
      \<subseteq> insert (MinExponent f) {e \<in> {MinExponent f..MaxExponent f}. 2 powi e \<le> \<bar>y\<bar>}"
    using assms by auto
  then show ?thesis
    unfolding Exponent_def by (rule Max_mono) (rule insert_not_empty, rule finite_exponents)
qed

lemma Exponent_eqI:
  assumes "MinExponent f \<le> e" and "e \<le> MaxExponent f"
    and "2 powi e \<le> \<bar>x\<bar>" and "\<bar>x\<bar> < 2 powi (e + 1)"
  shows "Exponent f x = e"
proof (rule antisym)
  show "e \<le> Exponent f x"
    using assms(1-3) by (rule Exponent_greatest)
  show "Exponent f x \<le> e"
  proof (rule ccontr)
    assume "\<not> Exponent f x \<le> e"
    then have gt: "e + 1 \<le> Exponent f x" by simp
    with assms(1) have "Exponent f x \<noteq> MinExponent f" by simp
    with Exponent_cases [of f x] have "2 powi Exponent f x \<le> \<bar>x\<bar>" by blast
    moreover from gt have "(2 :: real) powi (e + 1) \<le> 2 powi Exponent f x"
      by (rule power_int_increasing) simp
    ultimately show False using assms(4) by simp
  qed
qed

lemma Exponent_min:
  assumes "\<bar>x\<bar> < 2 powi MinExponent f"
  shows "Exponent f x = MinExponent f"
proof (rule ccontr)
  assume n: "Exponent f x \<noteq> MinExponent f"
  with Exponent_cases [of f x] have "MinExponent f \<le> Exponent f x"
    and "2 powi Exponent f x \<le> \<bar>x\<bar>"
    by blast+
  moreover from this(1) have "(2 :: real) powi MinExponent f \<le> 2 powi Exponent f x"
    by (rule power_int_increasing) simp
  ultimately show False using assms by simp
qed

lemma Exponent_above:
  "MinExponent f < Exponent f x \<Longrightarrow> 2 powi Exponent f x \<le> \<bar>x\<bar>"
  using Exponent_cases [of f x] by auto

lemma Exponent_below:
  assumes "Exponent f x < MaxExponent f"
  shows "\<bar>x\<bar> < 2 powi (Exponent f x + 1)"
proof (rule ccontr)
  assume "\<not> \<bar>x\<bar> < 2 powi (Exponent f x + 1)"
  then have "2 powi (Exponent f x + 1) \<le> \<bar>x\<bar>" by simp
  moreover have "MinExponent f \<le> Exponent f x + 1"
    using Exponent_ge_min [of f x] by simp
  moreover from assms have "Exponent f x + 1 \<le> MaxExponent f" by simp
  ultimately have "Exponent f x + 1 \<le> Exponent f x"
    by (intro Exponent_greatest)
  then show False by simp
qed

lemma powi_divide: "(2 :: real) powi a / 2 powi b = 2 powi (a - b)"
  by (simp add: power_int_diff)

lemma Ulp_pos: "0 < Ulp f x"
  by (simp add: Ulp_def zero_less_power_int)

lemma RoundHalfEven_of_int: "RoundHalfEven (of_int n) = n"
  by (simp add: RoundHalfEven_def)

lemma RoundHalfEven_bounds: "\<lfloor>x\<rfloor> \<le> RoundHalfEven x" "RoundHalfEven x \<le> \<lfloor>x\<rfloor> + 1"
  by (simp_all add: RoundHalfEven_def Let_def)

lemma RoundHalfEven_mono:
  assumes "x \<le> y"
  shows "RoundHalfEven x \<le> RoundHalfEven y"
proof (cases "\<lfloor>x\<rfloor> < \<lfloor>y\<rfloor>")
  case True
  then have "\<lfloor>x\<rfloor> + 1 \<le> \<lfloor>y\<rfloor>" by simp
  with RoundHalfEven_bounds(2) [of x] RoundHalfEven_bounds(1) [of y]
  show ?thesis by linarith
next
  case False
  moreover from assms have "\<lfloor>x\<rfloor> \<le> \<lfloor>y\<rfloor>" by (rule floor_mono)
  ultimately have e: "\<lfloor>x\<rfloor> = \<lfloor>y\<rfloor>" by simp
  with assms have "x - of_int \<lfloor>y\<rfloor> \<le> y - of_int \<lfloor>y\<rfloor>" by simp
  then show ?thesis
    unfolding RoundHalfEven_def Let_def e by auto
qed

lemma Rounded_zero: "Rounded f 0 = 0"
  using RoundHalfEven_of_int [of 0] by (simp add: Rounded_def)

lemma Rounded_nonneg:
  assumes "0 \<le> x"
  shows "0 \<le> Rounded f x"
proof -
  from assms Ulp_pos [of f x] have "0 \<le> x / Ulp f x" by simp
  then have "RoundHalfEven 0 \<le> RoundHalfEven (x / Ulp f x)"
    by (rule RoundHalfEven_mono)
  then have "0 \<le> RoundHalfEven (x / Ulp f x)"
    using RoundHalfEven_of_int [of 0] by simp
  with Ulp_pos [of f x] show ?thesis
    by (simp add: Rounded_def)
qed

lemma Rounded_nonpos:
  assumes "x \<le> 0"
  shows "Rounded f x \<le> 0"
proof -
  from assms Ulp_pos [of f x] have "x / Ulp f x \<le> 0"
    by (simp add: divide_nonpos_pos)
  then have "RoundHalfEven (x / Ulp f x) \<le> RoundHalfEven 0"
    by (rule RoundHalfEven_mono)
  then have "RoundHalfEven (x / Ulp f x) \<le> 0"
    using RoundHalfEven_of_int [of 0] by simp
  with Ulp_pos [of f x] show ?thesis
    by (simp add: Rounded_def mult_le_0_iff)
qed

text \<open>
  Rounding keeps the order of the numbers that are not negative: within one binade
  the unit is the same, and between two binades lies a power of two, which both
  roundings respect.
\<close>

lemma Rounded_mono:
  assumes p: "0 < Precision f" and x: "0 \<le> x" and xy: "x \<le> y"
  shows "Rounded f x \<le> Rounded f y"
proof -
  from x xy have ax: "\<bar>x\<bar> = x" and ay: "\<bar>y\<bar> = y" by simp_all
  from x xy have E: "Exponent f x \<le> Exponent f y"
    by (intro Exponent_mono) simp
  show ?thesis
  proof (cases "Exponent f x = Exponent f y")
    case True
    then have u: "Ulp f x = Ulp f y" by (simp add: Ulp_def)
    from xy Ulp_pos [of f y] have "x / Ulp f y \<le> y / Ulp f y"
      by (simp add: divide_right_mono)
    then have "RoundHalfEven (x / Ulp f y) \<le> RoundHalfEven (y / Ulp f y)"
      by (rule RoundHalfEven_mono)
    with Ulp_pos [of f y] show ?thesis
      unfolding Rounded_def u by (simp add: mult_right_mono)
  next
    case False
    with E have lt: "Exponent f x < Exponent f y" by simp
    have "Exponent f y \<le> MaxExponent f"
      using Exponent_cases [of f y] lt Exponent_ge_min [of f x] by auto
    with lt have "Exponent f x < MaxExponent f" by simp
    then have xb: "x < 2 powi (Exponent f x + 1)"
      using Exponent_below [of f x] ax by simp
    from lt Exponent_ge_min [of f x] have "MinExponent f < Exponent f y" by simp
    then have yb: "2 powi Exponent f y \<le> y"
      using Exponent_above [of f y] ay by simp
    have qx: "2 powi (Exponent f x + 1) / Ulp f x = of_int (2 ^ Precision f)"
    proof -
      have "(Exponent f x + 1) - (Exponent f x - int (Precision f) + 1) = int (Precision f)"
        by simp
      with powi_divide [of "Exponent f x + 1" "Exponent f x - int (Precision f) + 1"]
      have "2 powi (Exponent f x + 1) / Ulp f x = 2 powi int (Precision f)"
        unfolding Ulp_def by (simp only:)
      then show ?thesis by (simp add: power_int_of_nat)
    qed
    have qy: "2 powi Exponent f y / Ulp f y = of_int (2 ^ (Precision f - 1))"
    proof -
      have "Exponent f y - (Exponent f y - int (Precision f) + 1) = int (Precision f - 1)"
        using p by (simp add: of_nat_diff)
      with powi_divide [of "Exponent f y" "Exponent f y - int (Precision f) + 1"]
      have "2 powi Exponent f y / Ulp f y = 2 powi int (Precision f - 1)"
        unfolding Ulp_def by (simp only:)
      then show ?thesis by (simp add: power_int_of_nat)
    qed
    have "x / Ulp f x \<le> 2 powi (Exponent f x + 1) / Ulp f x"
      using xb Ulp_pos [of f x] by (simp add: divide_right_mono)
    then have "RoundHalfEven (x / Ulp f x) \<le> RoundHalfEven (of_int (2 ^ Precision f))"
      unfolding qx by (rule RoundHalfEven_mono)
    then have "of_int (RoundHalfEven (x / Ulp f x)) * Ulp f x
        \<le> of_int (2 ^ Precision f) * Ulp f x"
      unfolding RoundHalfEven_of_int using Ulp_pos [of f x]
      by (simp only: mult_right_mono of_int_le_iff less_imp_le)
    also have "\<dots> = 2 powi (Exponent f x + 1)"
      using qx Ulp_pos [of f x] by (simp add: field_simps)
    finally have lo: "Rounded f x \<le> 2 powi (Exponent f x + 1)"
      by (simp add: Rounded_def)
    have "2 powi Exponent f y / Ulp f y \<le> y / Ulp f y"
      using yb Ulp_pos [of f y] by (simp add: divide_right_mono)
    then have "RoundHalfEven (of_int (2 ^ (Precision f - 1))) \<le> RoundHalfEven (y / Ulp f y)"
      unfolding qy by (rule RoundHalfEven_mono)
    then have "of_int (2 ^ (Precision f - 1)) * Ulp f y
        \<le> of_int (RoundHalfEven (y / Ulp f y)) * Ulp f y"
      unfolding RoundHalfEven_of_int using Ulp_pos [of f y]
      by (simp only: mult_right_mono of_int_le_iff less_imp_le)
    moreover have "of_int (2 ^ (Precision f - 1)) * Ulp f y = 2 powi Exponent f y"
      using qy Ulp_pos [of f y] by (simp add: field_simps)
    ultimately have hi: "2 powi Exponent f y \<le> Rounded f y"
      by (simp add: Rounded_def)
    from lt have "(2 :: real) powi (Exponent f x + 1) \<le> 2 powi Exponent f y"
      by (intro power_int_increasing) simp_all
    with lo hi show ?thesis by linarith
  qed
qed

text \<open>
  A number written with a significand that fits the precision and an exponent that the
  format has is a number of the format: rounding returns it.
\<close>

lemma Rounded_exact:
  assumes x: "x = of_int m * 2 powi k"
    and m: "\<bar>m\<bar> < 2 ^ Precision f"
    and k: "MinExponent f - int (Precision f) + 1 \<le> k"
  shows "Rounded f x = x"
proof (cases "m = 0")
  case True
  with x show ?thesis by (simp add: Rounded_zero)
next
  case False
  define j where "j = Exponent f x - int (Precision f) + 1"
  have jk: "j \<le> k"
  proof (cases "Exponent f x = MinExponent f")
    case True
    with k show ?thesis by (simp add: j_def)
  next
    case ne: False
    with Exponent_cases [of f x] have "2 powi Exponent f x \<le> \<bar>x\<bar>" by blast
    also have "\<bar>x\<bar> = of_int \<bar>m\<bar> * 2 powi k"
      unfolding x by (simp add: abs_mult)
    also have "\<dots> < of_int (2 ^ Precision f) * 2 powi k"
    proof -
      from m have "real_of_int \<bar>m\<bar> < real_of_int (2 ^ Precision f)"
        by (simp only: of_int_less_iff)
      moreover have "(0 :: real) < 2 powi k"
        by (simp add: zero_less_power_int)
      ultimately show ?thesis
        by (rule mult_strict_right_mono)
    qed
    also have "\<dots> = 2 powi (int (Precision f) + k)"
      by (simp add: power_int_add)
    finally have lt: "(2 :: real) powi Exponent f x < 2 powi (int (Precision f) + k)" .
    have "Exponent f x < int (Precision f) + k"
    proof (rule ccontr)
      assume "\<not> Exponent f x < int (Precision f) + k"
      then have "int (Precision f) + k \<le> Exponent f x" by simp
      then have "(2 :: real) powi (int (Precision f) + k) \<le> 2 powi Exponent f x"
        by (rule power_int_increasing) simp
      with lt show False by simp
    qed
    then show ?thesis by (simp add: j_def)
  qed
  have "x / Ulp f x = of_int m * (2 powi k / 2 powi j)"
    by (simp add: x Ulp_def j_def)
  also have "2 powi k / (2 :: real) powi j = 2 powi (k - j)"
    by (rule powi_divide)
  also have "\<dots> = of_int (2 ^ nat (k - j))"
  proof -
    from jk have "int (nat (k - j)) = k - j" by simp
    with power_int_of_nat [of "2 :: real" "nat (k - j)"]
    have "(2 :: real) powi (k - j) = 2 ^ nat (k - j)"
      by (simp only:)
    then show ?thesis by simp
  qed
  finally have q: "x / Ulp f x = of_int (m * 2 ^ nat (k - j))"
    by simp
  have "Rounded f x = of_int (m * 2 ^ nat (k - j)) * Ulp f x"
    unfolding Rounded_def q RoundHalfEven_of_int ..
  also have "\<dots> = x / Ulp f x * Ulp f x"
    unfolding q ..
  also have "\<dots> = x"
    using Ulp_pos [of f x] by simp
  finally show ?thesis .
qed

lemma Round_exact:
  assumes "x = of_int m * 2 powi k"
    and "\<bar>m\<bar> < 2 ^ Precision f"
    and "MinExponent f - int (Precision f) + 1 \<le> k"
    and "\<bar>x\<bar> < 2 powi (MaxExponent f + 1)"
  shows "Round f x = Finite x"
  using Rounded_exact [OF assms(1-3)] assms(4) by (simp add: Round_def)

section \<open>The two formats and the conversions to \<open>int32\<close>\<close>

lemma binary32_simps:
  "Precision binary32 = 24" "MinExponent binary32 = - 126" "MaxExponent binary32 = 127"
  by (simp_all add: binary32_def)

lemma binary64_simps:
  "Precision binary64 = 53" "MinExponent binary64 = - 1022" "MaxExponent binary64 = 1023"
  by (simp_all add: binary64_def)

lemma Round_cases: "Round f x = Finite (Rounded f x) \<or> Round f x = Infinity (x < 0)"
  by (simp add: Round_def)

lemma Round_Finite_iff:
  "Round f x = Finite y \<longleftrightarrow> y = Rounded f x \<and> \<bar>Rounded f x\<bar> < 2 powi (MaxExponent f + 1)"
  by (auto simp: Round_def)

text \<open>Evaluating a rounding once the exponent is known.\<close>

lemma Round_evalI:
  assumes "MinExponent f \<le> e" and "e \<le> MaxExponent f"
    and "2 powi e \<le> \<bar>x\<bar>" and "\<bar>x\<bar> < 2 powi (e + 1)"
    and "u = 2 powi (e - int (Precision f) + 1)"
    and "RoundHalfEven (x / u) = n"
    and "y = of_int n * u"
    and "\<bar>y\<bar> < 2 powi (MaxExponent f + 1)"
  shows "Round f x = Finite y"
proof -
  from Exponent_eqI [OF assms(1-4)] assms(5) have "Ulp f x = u"
    by (simp add: Ulp_def)
  with assms(6,7) have "Rounded f x = y"
    by (simp add: Rounded_def)
  with assms(8) show ?thesis
    by (simp add: Round_def)
qed

lemma Rounded32_int:
  assumes "\<bar>n\<bar> < 2 ^ 24"
  shows "Rounded binary32 (of_int n) = of_int n"
  using Rounded_exact [of "of_int n" n 0 binary32] assms by (simp add: binary32_simps)

lemma Round32_int:
  assumes "\<bar>n\<bar> < 2 ^ 24"
  shows "Round binary32 (of_int n) = Finite (of_int n)"
proof -
  from assms have "\<bar>real_of_int n\<bar> < 2 ^ 24"
    by (metis of_int_abs of_int_less_iff of_int_numeral of_int_power)
  also have "\<dots> < 2 ^ 128" by simp
  finally have "\<bar>real_of_int n\<bar> < 2 powi 128" by simp
  then show ?thesis
    using Rounded32_int [OF assms] by (simp add: Round_def binary32_simps)
qed

lemma Round64_int:
  assumes "\<bar>n\<bar> < 2 ^ 53"
  shows "Round binary64 (of_int n) = Finite (of_int n)"
proof -
  from assms have "\<bar>real_of_int n\<bar> < 2 ^ 53"
    by (metis of_int_abs of_int_less_iff of_int_numeral of_int_power)
  also have "\<dots> < 2 ^ 1024" by simp
  finally have "\<bar>real_of_int n\<bar> < 2 powi 1024" by simp
  moreover have "Rounded binary64 (of_int n) = of_int n"
    using Rounded_exact [of "of_int n" n 0 binary64] assms by (simp add: binary64_simps)
  ultimately show ?thesis
    by (simp add: Round_def binary64_simps)
qed

lemma Rounded32_one: "Rounded binary32 1 = 1"
  using Rounded32_int [of 1] by simp

lemma Rounded32_half: "Rounded binary32 (1 / 2) = 1 / 2"
  using Rounded_exact [of "1 / 2" 1 "- 1" binary32] by (simp add: binary32_simps)

lemma Rounded32_two_31: "Rounded binary32 2147483648 = 2147483648"
  using Rounded_exact [of 2147483648 1 31 binary32] by (simp add: binary32_simps)

lemma Rounded32_two_minus_31: "Rounded binary32 (1 / 2147483648) = 1 / 2147483648"
  using Rounded_exact [of "1 / 2147483648" 1 "- 31" binary32]
  by (simp add: binary32_simps power_int_minus field_simps)

lemma int32_Some_iff: "int32 n = Some m \<longleftrightarrow> m = n \<and> - (2 ^ 31) \<le> n \<and> n < 2 ^ 31"
  by (auto simp: int32_def)

lemma CeilToInt_Finite: "CeilToInt (Finite x) = int32 \<lceil>x\<rceil>"
  by (simp add: CeilToInt_def ceilf_def TruncToInt_def)

lemma FloorToInt_Finite: "FloorToInt (Finite x) = int32 \<lfloor>x\<rfloor>"
  by (simp add: FloorToInt_def floorf_def TruncToInt_def)

lemma CeilToInt_not_finite: "CeilToInt (Infinity n) = None" "CeilToInt NaN = None"
  by (simp_all add: CeilToInt_def ceilf_def TruncToInt_def)

lemma FloorToInt_not_finite: "FloorToInt (Infinity n) = None" "FloorToInt NaN = None"
  by (simp_all add: FloorToInt_def floorf_def TruncToInt_def)

lemma CeilToInt_SomeD:
  assumes "CeilToInt F = Some n"
  shows "\<exists>x. F = Finite x \<and> n = \<lceil>x\<rceil> \<and> - (2 ^ 31) \<le> n \<and> n < 2 ^ 31"
  using assms by (cases F) (auto simp: CeilToInt_Finite CeilToInt_not_finite int32_Some_iff)

lemma FloorToInt_SomeD:
  assumes "FloorToInt F = Some n"
  shows "\<exists>x. F = Finite x \<and> n = \<lfloor>x\<rfloor> \<and> - (2 ^ 31) \<le> n \<and> n < 2 ^ 31"
  using assms by (cases F) (auto simp: FloorToInt_Finite FloorToInt_not_finite int32_Some_iff)

text \<open>A result that is finite comes from operands that are.\<close>

lemma ieee_convert_FiniteD:
  assumes "ieee_convert f a = Finite z"
  shows "\<exists>x. a = Finite x \<and> z = Rounded f x \<and> \<bar>Rounded f x\<bar> < 2 powi (MaxExponent f + 1)"
  using assms by (cases a) (auto simp: ieee_convert_def Round_Finite_iff)

lemma ieee_mul_FiniteD:
  assumes "ieee_mul f a b = Finite z"
  shows "\<exists>x y. a = Finite x \<and> b = Finite y \<and> z = Rounded f (x * y)
    \<and> \<bar>Rounded f (x * y)\<bar> < 2 powi (MaxExponent f + 1)"
  using assms by (cases a; cases b) (auto simp: ieee_mul_def Round_Finite_iff split: if_splits)

lemma ieee_add_FiniteD:
  assumes "ieee_add f a b = Finite z"
  shows "\<exists>x y. a = Finite x \<and> b = Finite y \<and> z = Rounded f (x + y)
    \<and> \<bar>Rounded f (x + y)\<bar> < 2 powi (MaxExponent f + 1)"
  using assms by (cases a; cases b) (auto simp: ieee_add_def Round_Finite_iff split: if_splits)

lemma ieee_div_FiniteD:
  assumes "ieee_div f a b = Finite z"
  shows "(\<exists>x y. a = Finite x \<and> b = Finite y \<and> y \<noteq> 0 \<and> z = Rounded f (x / y)
      \<and> \<bar>Rounded f (x / y)\<bar> < 2 powi (MaxExponent f + 1))
    \<or> (\<exists>x n. a = Finite x \<and> b = Infinity n \<and> z = 0)"
  using assms by (cases a; cases b) (auto simp: ieee_div_def Round_Finite_iff split: if_splits)

section \<open>The loop that builds the common bases\<close>

lemma sdiv_nonneg: "0 \<le> a \<Longrightarrow> 0 < b \<Longrightarrow> a sdiv b = a div (b :: int)"
  by (cases "a = 0") (simp_all add: signed_divide_int_eq_divide_int)

lemma smod_nonneg: "0 \<le> a \<Longrightarrow> 0 < b \<Longrightarrow> a smod b = a mod (b :: int)"
  by (cases "a = 0") (simp_all add: signed_modulo_int_eq_modulo_int)

lemma sdiv_dvd: "b dvd a \<Longrightarrow> a sdiv b = a div (b :: int)"
  by (simp add: signed_divide_int_eq_divide_int)

lemma LowestResultOf_positive:
  assumes "0 < b"
  shows "0 < LowestResultOf b \<and> LowestResultOf b \<le> b"
  using assms by (simp add: LowestResultOf_def Let_def)

text \<open>Each branch of the loop that goes round again does so with a smaller positive base.\<close>

lemma next_base_div:
  assumes "0 < b" and "b mod d = 0" and "1 < (d :: int)"
  shows "0 < b div d \<and> b div d < b"
proof -
  from assms(2) have "b = d * (b div d)" by auto
  with assms(1,3) have "0 < b div d"
    by (metis mult_pos_pos not_less zero_less_mult_pos zero_less_one order_less_trans)
  moreover from assms(1,3) have "b div d < b"
    by (simp add: int_div_less_self)
  ultimately show ?thesis ..
qed

text \<open>
  From a positive base the loop ends, with the bases it went through: a strictly
  descending list of positive numbers that starts with the base.
\<close>

lemma CommonBasesLoop_positive:
  "0 < b \<Longrightarrow>
   \<exists>ds. CommonBasesLoop b acc = Some (acc @ b # ds)
        \<and> sorted_wrt (\<lambda>x y. y < x) ds \<and> (\<forall>d\<in>set ds. 0 < d \<and> d < b)"
proof (induction "nat b" arbitrary: b acc rule: less_induct)
  case less
  note pos = \<open>0 < b\<close>
  have again: "\<exists>ds. CommonBasesLoop b' (acc @ [b]) = Some (acc @ b # b' # ds)
        \<and> sorted_wrt (\<lambda>x y. y < x) (b' # ds) \<and> (\<forall>d\<in>set (b' # ds). 0 < d \<and> d < b)"
    if "0 < b'" "b' < b" for b'
  proof -
    from that have "nat b' < nat b" by simp
    from less.hyps [OF this that(1), of "acc @ [b]"]
    obtain ds where "CommonBasesLoop b' (acc @ [b]) = Some ((acc @ [b]) @ b' # ds)"
      and "sorted_wrt (\<lambda>x y. y < x) ds" and "\<forall>d\<in>set ds. 0 < d \<and> d < b'"
      by blast
    with that show ?thesis
      by (intro exI [of _ ds]) auto
  qed
  show ?case
  proof (cases "b smod 2 = 0")
    case True
    with pos have "b mod 2 = 0" by (simp add: smod_nonneg)
    from next_base_div [OF pos this] have "0 < b sdiv 2" "b sdiv 2 < b"
      using pos by (simp_all add: sdiv_nonneg)
    from again [OF this] True show ?thesis
      by (subst CommonBasesLoop.simps) auto
  next
    case n2: False
    show ?thesis
    proof (cases "b smod 3 = 0")
      case True
      with pos have "b mod 3 = 0" by (simp add: smod_nonneg)
      from next_base_div [OF pos this] have "0 < b sdiv 3" "b sdiv 3 < b"
        using pos by (simp_all add: sdiv_nonneg)
      from again [OF this] n2 True show ?thesis
        by (subst CommonBasesLoop.simps) auto
    next
      case n3: False
      show ?thesis
      proof (cases "b smod 5 = 0")
        case True
        with pos have "b mod 5 = 0" by (simp add: smod_nonneg)
        from next_base_div [OF pos this] have "0 < b sdiv 5" "b sdiv 5 < b"
          using pos by (simp_all add: sdiv_nonneg)
        from again [OF this] n2 n3 True show ?thesis
          by (subst CommonBasesLoop.simps) auto
      next
        case n5: False
        show ?thesis
        proof (cases "LowestResultOf b < b")
          case True
          from LowestResultOf_positive [OF pos] have "0 < LowestResultOf b" ..
          from again [OF this True] n2 n3 n5 True show ?thesis
            by (subst CommonBasesLoop.simps) auto
        next
          case False
          with n2 n3 n5 have "CommonBasesLoop b acc = Some (acc @ [b])"
            by (subst CommonBasesLoop.simps) simp
          then show ?thesis
            by (intro exI [of _ "[]"]) simp
        qed
      qed
    qed
  qed
qed

text \<open>From the base zero the loop never ends: whenever it returns, the base was not zero.\<close>

lemma CommonBasesLoop_returns_nonzero:
  assumes "CommonBasesLoop b acc = Some y"
  shows "b \<noteq> 0"
proof -
  have step: "b \<noteq> 0"
    if IH: "\<And>b acc y. loop b acc = Some y \<Longrightarrow> b \<noteq> 0"
      and eq: "(if b smod 2 = 0 then loop (b sdiv 2) (acc @ [b])
        else if b smod 3 = 0 then loop (b sdiv 3) (acc @ [b])
        else if b smod 5 = 0 then loop (b sdiv 5) (acc @ [b])
        else if LowestResultOf b < b then loop (LowestResultOf b) (acc @ [b])
        else Some (acc @ [b])) = Some y"
    for loop :: "int \<Rightarrow> int list \<Rightarrow> int list option" and b acc y
  proof
    assume "b = 0"
    with eq have "loop 0 (acc @ [0]) = Some y" by simp
    from IH [OF this] show False by simp
  qed
  from CommonBasesLoop.raw_induct [where P = "\<lambda>b acc y. b \<noteq> 0", OF step assms]
  show ?thesis .
qed

lemma CommonBasesLoop_zero: "CommonBasesLoop 0 acc = None"
proof (cases "CommonBasesLoop 0 acc")
  case None
  then show ?thesis .
next
  case (Some y)
  from CommonBasesLoop_returns_nonzero [OF this] show ?thesis by simp
qed

lemma AsDecimal_fps30: "AsDecimal fps30 = Finite 30"
  using Round64_int [of 30] by (simp add: AsDecimal_def fps30_def ieee_div_def)

lemma Round32_30: "Round binary32 30 = Finite 30"
  using Round32_int [of 30] by simp

lemma RoundFrameRate_fps30: "RoundFrameRate fps30 = Some 30"
proof -
  have "Round binary32 (61 / 2) = Finite (61 / 2)"
    using Round_exact [of "61 / 2" 61 "- 1" binary32]
    by (simp add: binary32_simps power_int_minus field_simps)
  then show ?thesis
    by (simp add: RoundFrameRate_def AsDecimal_fps30 ieee_convert_def Round32_30 RoundToInt_def
        ieee_add_def FloorToInt_Finite int32_def)
qed

lemma RoundFrameRate_quarter: "RoundFrameRate \<lparr>Numerator = 1, Denominator = 4\<rparr> = Some 0"
proof -
  have a: "Round binary64 (1 / 4) = Finite (1 / 4)"
    using Round_exact [of "1 / 4" 1 "- 2" binary64]
    by (simp add: binary64_simps power_int_minus field_simps)
  have b: "Round binary32 (1 / 4) = Finite (1 / 4)"
    using Round_exact [of "1 / 4" 1 "- 2" binary32]
    by (simp add: binary32_simps power_int_minus field_simps)
  have c: "Round binary32 (3 / 4) = Finite (3 / 4)"
    using Round_exact [of "3 / 4" 3 "- 2" binary32]
    by (simp add: binary32_simps power_int_minus field_simps)
  show ?thesis
    by (simp add: RoundFrameRate_def AsDecimal_def ieee_div_def a ieee_convert_def b
        RoundToInt_def ieee_add_def c FloorToInt_Finite int32_def)
qed

text \<open>
  Claim C10. For a frame rate that rounds to a positive integer the loop of
  \<open>ComputeGridSpacing\<close> that builds the common bases ends: it returns the bases, a
  strictly descending list of positive numbers starting with the rounded rate, and
  \<open>ComputeGridSpacing\<close> leaves the loop. For a frame rate that rounds to zero the
  loop never ends, from whatever it has added so far, and \<open>ComputeGridSpacing\<close>
  never leaves it. So among the rates that do not round to a negative number the loop
  ends exactly for those that round to a positive one.
\<close>

theorem CommonBasesLoop_terminates_iff_positive:
  "(0 < RoundedFPS \<longrightarrow>
      (\<exists>Bases. CommonBasesLoop RoundedFPS [] = Some (RoundedFPS # Bases)
         \<and> sorted_wrt (\<lambda>x y. y < x) (RoundedFPS # Bases)
         \<and> (\<forall>d\<in>set Bases. 0 < d)))
   \<and> CommonBasesLoop 0 CommonBases = None
   \<and> (0 \<le> RoundedFPS \<longrightarrow>
        ((\<exists>Bases. CommonBasesLoop RoundedFPS [] = Some Bases) = (0 < RoundedFPS)))
   \<and> (RoundFrameRate InFrameRate = Some RoundedFPS \<longrightarrow> 0 < RoundedFPS \<longrightarrow>
        ComputeGridSpacing InFrameRate PixelsPerSecond MinTickPx DesiredMajorTickPx \<noteq> Diverges)
   \<and> (RoundFrameRate InFrameRate = Some 0 \<longrightarrow>
        ComputeGridSpacing InFrameRate PixelsPerSecond MinTickPx DesiredMajorTickPx = Diverges)"
proof -
  have a: "\<exists>Bases. CommonBasesLoop RoundedFPS [] = Some (RoundedFPS # Bases)
         \<and> sorted_wrt (\<lambda>x y. y < x) (RoundedFPS # Bases)
         \<and> (\<forall>d\<in>set Bases. 0 < d)"
    if "0 < RoundedFPS"
    using CommonBasesLoop_positive [OF that, of "[]"] by auto
  have i: "(\<exists>Bases. CommonBasesLoop RoundedFPS [] = Some Bases) = (0 < RoundedFPS)"
    if "0 \<le> RoundedFPS"
  proof (cases "RoundedFPS = 0")
    case True
    then show ?thesis by (simp add: CommonBasesLoop_zero)
  next
    case False
    with that have "0 < RoundedFPS" by simp
    with a show ?thesis by blast
  qed
  have b: "ComputeGridSpacing InFrameRate PixelsPerSecond MinTickPx DesiredMajorTickPx \<noteq> Diverges"
    if "RoundFrameRate InFrameRate = Some RoundedFPS" "0 < RoundedFPS"
    using CommonBasesLoop_positive [OF that(2), of "[]"] that(1)
    by (auto simp: ComputeGridSpacing_def split: option.splits)
  have c: "ComputeGridSpacing InFrameRate PixelsPerSecond MinTickPx DesiredMajorTickPx = Diverges"
    if "RoundFrameRate InFrameRate = Some 0"
    using that by (simp add: ComputeGridSpacing_def CommonBasesLoop_zero)
  from a i b c CommonBasesLoop_zero show ?thesis by blast
qed

lemma CommonBasesLoop_30: "CommonBasesLoop 30 [] = Some [30, 15, 5, 1]"
  by (simp add: CommonBasesLoop.simps LowestResultOf_def signed_divide_int_def
      signed_modulo_int_def)

theorem CommonBasesLoop_terminates_iff_positive_witness:
  "(0 :: int) < 30
   \<and> CommonBasesLoop 30 [] = Some [30, 15, 5, 1]
   \<and> RoundFrameRate fps30 = Some 30
   \<and> ComputeGridSpacing fps30 (Finite 100) (Finite 10) (Finite 60) \<noteq> Diverges
   \<and> RoundFrameRate \<lparr>Numerator = 1, Denominator = 4\<rparr> = Some 0
   \<and> ComputeGridSpacing \<lparr>Numerator = 1, Denominator = 4\<rparr> (Finite 100) (Finite 10) (Finite 60)
       = Diverges"
proof -
  from CommonBasesLoop_terminates_iff_positive
    [of 30 "[]" fps30 "Finite 100" "Finite 10" "Finite 60"] RoundFrameRate_fps30
  have "ComputeGridSpacing fps30 (Finite 100) (Finite 10) (Finite 60) \<noteq> Diverges"
    by simp
  moreover
  from CommonBasesLoop_terminates_iff_positive
    [of 30 "[]" "\<lparr>Numerator = 1, Denominator = 4\<rparr>" "Finite 100" "Finite 10" "Finite 60"]
    RoundFrameRate_quarter
  have "ComputeGridSpacing \<lparr>Numerator = 1, Denominator = 4\<rparr> (Finite 100) (Finite 10) (Finite 60)
      = Diverges"
    by blast
  ultimately show ?thesis
    using RoundFrameRate_fps30 RoundFrameRate_quarter CommonBasesLoop_30 by simp
qed

section \<open>The scale\<close>

text \<open>A frame rate that rounds to a positive number is a positive finite number.\<close>

lemma RoundFrameRate_positive:
  assumes r: "RoundFrameRate r = Some n" and n: "0 < n"
  shows "\<exists>a. AsDecimal r = Finite a \<and> 0 < a"
proof -
  from r have "FloorToInt (ieee_add binary32 (ieee_convert binary32 (AsDecimal r)) (Finite (1 / 2)))
      = Some n"
    by (simp add: RoundFrameRate_def RoundToInt_def)
  from FloorToInt_SomeD [OF this]
  obtain w where w: "ieee_add binary32 (ieee_convert binary32 (AsDecimal r)) (Finite (1 / 2)) = Finite w"
    and nw: "n = \<lfloor>w\<rfloor>"
    by blast
  from ieee_add_FiniteD [OF w]
  obtain z y where z: "ieee_convert binary32 (AsDecimal r) = Finite z"
    and y: "Finite (1 / 2) = Finite y" and wzy: "w = Rounded binary32 (z + y)"
    by blast
  from y have "y = 1 / 2" by simp
  with wzy have wz: "w = Rounded binary32 (z + 1 / 2)" by simp
  from ieee_convert_FiniteD [OF z]
  obtain a where a: "AsDecimal r = Finite a" and za: "z = Rounded binary32 a"
    by blast
  have "0 < a"
  proof (rule ccontr)
    assume "\<not> 0 < a"
    then have "a \<le> 0" by simp
    then have "z \<le> 0"
      unfolding za by (rule Rounded_nonpos)
    have "w \<le> 1 / 2"
    proof (cases "z + 1 / 2 \<le> 0")
      case True
      then have "w \<le> 0"
        unfolding wz by (rule Rounded_nonpos)
      then show ?thesis by simp
    next
      case False
      then have "0 \<le> z + 1 / 2" by simp
      moreover from \<open>z \<le> 0\<close> have "z + 1 / 2 \<le> 1 / 2" by simp
      ultimately have "Rounded binary32 (z + 1 / 2) \<le> Rounded binary32 (1 / 2)"
        by - (rule Rounded_mono, simp_all add: binary32_simps)
      then show ?thesis
        unfolding wz Rounded32_half .
    qed
    then have "\<lfloor>w\<rfloor> \<le> 0"
      by (simp add: floor_le_iff)
    with nw n show False by simp
  qed
  with a show ?thesis by blast
qed

lemma RoundFrameRate_range:
  assumes "RoundFrameRate r = Some n"
  shows "n < 2 ^ 31"
proof -
  from assms have "FloorToInt (ieee_add binary32 (ieee_convert binary32 (AsDecimal r)) (Finite (1 / 2)))
      = Some n"
    by (simp add: RoundFrameRate_def RoundToInt_def)
  from FloorToInt_SomeD [OF this] show ?thesis by blast
qed

text \<open>
  The value of the scale for a desired width that is not negative and positive pixels
  per second: zero when the pixels per second are too large for a \<open>float\<close>, and else
  the ceiling of the rounded product.
\<close>

lemma ScaleOf_cases:
  assumes s: "ScaleOf r (ieee_convert binary32 (Finite d)) (ieee_convert binary32 (Finite p)) = Some s"
    and a: "AsDecimal r = Finite a" and d: "0 \<le> d" and p: "0 < p"
  shows "(2 powi 128 \<le> Rounded binary32 p \<and> s = 0)
    \<or> (0 < Rounded binary32 p \<and> Rounded binary32 p < 2 powi 128
       \<and> s = \<lceil>Rounded binary32 (Rounded binary64
               (Rounded binary32 (Rounded binary32 d / Rounded binary32 p) * a))\<rceil>)"
proof -
  let ?D = "ieee_convert binary32 (Finite d)" and ?P = "ieee_convert binary32 (Finite p)"
  from p have pp: "0 \<le> Rounded binary32 p"
    by (intro Rounded_nonneg) simp
  from s have "CeilToInt (ieee_convert binary32
      (ieee_mul binary64 (ieee_div binary32 ?D ?P) (Finite a))) = Some s"
    by (simp add: ScaleOf_def a)
  from CeilToInt_SomeD [OF this]
  obtain w where w: "ieee_convert binary32
      (ieee_mul binary64 (ieee_div binary32 ?D ?P) (Finite a)) = Finite w"
    and sw: "s = \<lceil>w\<rceil>"
    by blast
  from ieee_convert_FiniteD [OF w]
  obtain v where v: "ieee_mul binary64 (ieee_div binary32 ?D ?P) (Finite a) = Finite v"
    and wv: "w = Rounded binary32 v"
    by blast
  from ieee_mul_FiniteD [OF v]
  obtain q a' where q: "ieee_div binary32 ?D ?P = Finite q"
    and a': "Finite a = Finite a'" and vqa: "v = Rounded binary64 (q * a')"
    by blast
  from a' have "a' = a" by simp
  with vqa have vq: "v = Rounded binary64 (q * a)" by simp
  from ieee_div_FiniteD [OF q] show ?thesis
  proof
    assume "\<exists>x y. ?D = Finite x \<and> ?P = Finite y \<and> y \<noteq> 0 \<and> q = Rounded binary32 (x / y)
      \<and> \<bar>Rounded binary32 (x / y)\<bar> < 2 powi (MaxExponent binary32 + 1)"
    then obtain x y where x: "?D = Finite x" and y: "?P = Finite y" and y0: "y \<noteq> 0"
      and qxy: "q = Rounded binary32 (x / y)"
      by blast
    from ieee_convert_FiniteD [OF x] have xd: "x = Rounded binary32 d" by simp
    from ieee_convert_FiniteD [OF y] have yp: "y = Rounded binary32 p"
      and "\<bar>Rounded binary32 p\<bar> < 2 powi (MaxExponent binary32 + 1)"
      by simp_all
    with pp have "Rounded binary32 p < 2 powi 128"
      by (simp add: binary32_simps)
    moreover from y0 yp pp have "0 < Rounded binary32 p" by simp
    ultimately show ?thesis
      using sw wv vq qxy xd yp by simp
  next
    assume "\<exists>x n. ?D = Finite x \<and> ?P = Infinity n \<and> q = 0"
    then obtain n where P: "?P = Infinity n" and q0: "q = 0"
      by blast
    from P have "Round binary32 p = Infinity n"
      by (simp add: ieee_convert_def)
    then have "2 powi (MaxExponent binary32 + 1) \<le> \<bar>Rounded binary32 p\<bar>"
      by (simp add: Round_def split: if_splits)
    with pp have "2 powi 128 \<le> Rounded binary32 p"
      by (simp add: binary32_simps)
    moreover from sw wv vq q0 have "s = 0"
      by (simp add: Rounded_zero)
    ultimately show ?thesis by simp
  qed
qed

text \<open>More pixels per second never give a larger scale, and the scale is not negative.\<close>

lemma ScaleOf_antitone:
  assumes s1: "ScaleOf r (ieee_convert binary32 (Finite d)) (ieee_convert binary32 (Finite p1)) = Some s1"
    and s2: "ScaleOf r (ieee_convert binary32 (Finite d)) (ieee_convert binary32 (Finite p2)) = Some s2"
    and a: "AsDecimal r = Finite a" and a0: "0 < a"
    and d: "0 \<le> d" and p1: "0 < p1" and p12: "p1 \<le> p2"
  shows "0 \<le> s2 \<and> s2 \<le> s1"
proof -
  from p1 p12 have p2: "0 < p2" by simp
  define dd where "dd = Rounded binary32 d"
  define scale where "scale pp = \<lceil>Rounded binary32 (Rounded binary64
      (Rounded binary32 (dd / pp) * a))\<rceil>" for pp
  have dd: "0 \<le> dd"
    unfolding dd_def using d by (rule Rounded_nonneg)
  have step: "Rounded binary32 (Rounded binary64 (Rounded binary32 x * a))
      \<le> Rounded binary32 (Rounded binary64 (Rounded binary32 y * a))" if "0 \<le> x" "x \<le> y" for x y
  proof -
    from that have q: "Rounded binary32 x \<le> Rounded binary32 y"
      by - (rule Rounded_mono, simp_all add: binary32_simps)
    from that(1) have "0 \<le> Rounded binary32 x" by (rule Rounded_nonneg)
    with a0 have n: "0 \<le> Rounded binary32 x * a" by simp
    from q a0 have "Rounded binary32 x * a \<le> Rounded binary32 y * a"
      by (simp add: mult_right_mono)
    with n have v: "Rounded binary64 (Rounded binary32 x * a) \<le> Rounded binary64 (Rounded binary32 y * a)"
      by - (rule Rounded_mono, simp_all add: binary64_simps)
    from n have "0 \<le> Rounded binary64 (Rounded binary32 x * a)" by (rule Rounded_nonneg)
    with v show ?thesis
      by - (rule Rounded_mono, simp_all add: binary32_simps)
  qed
  have nonneg: "0 \<le> scale pp" if "0 < pp" for pp
  proof -
    from dd that have "0 \<le> dd / pp" by simp
    with step [of 0 "dd / pp"] have "Rounded binary32 (Rounded binary64 (Rounded binary32 0 * a))
        \<le> Rounded binary32 (Rounded binary64 (Rounded binary32 (dd / pp) * a))"
      by simp
    then have "0 \<le> Rounded binary32 (Rounded binary64 (Rounded binary32 (dd / pp) * a))"
      by (simp add: Rounded_zero)
    then show ?thesis
      unfolding scale_def by simp
  qed
  have mono: "Rounded binary32 p1 \<le> Rounded binary32 p2"
    using p1 p12 by - (rule Rounded_mono, simp_all add: binary32_simps)
  note c1 = ScaleOf_cases [OF s1 a d p1, folded dd_def, folded scale_def]
  note c2 = ScaleOf_cases [OF s2 a d p2, folded dd_def, folded scale_def]
  from c2 show ?thesis
  proof
    assume "2 powi 128 \<le> Rounded binary32 p2 \<and> s2 = 0"
    then have z: "s2 = 0" by simp
    from c1 nonneg have "0 \<le> s1" by auto
    with z show ?thesis by simp
  next
    assume f2: "0 < Rounded binary32 p2 \<and> Rounded binary32 p2 < 2 powi 128
      \<and> s2 = scale (Rounded binary32 p2)"
    with mono have "\<not> 2 powi 128 \<le> Rounded binary32 p1" by simp
    with c1 have f1: "0 < Rounded binary32 p1" "s1 = scale (Rounded binary32 p1)"
      by auto
    from f2 dd have "0 \<le> dd / Rounded binary32 p2" by simp
    moreover from mono f1(1) dd have "dd / Rounded binary32 p2 \<le> dd / Rounded binary32 p1"
      by (simp add: frac_le)
    ultimately have "Rounded binary32 (Rounded binary64 (Rounded binary32 (dd / Rounded binary32 p2) * a))
        \<le> Rounded binary32 (Rounded binary64 (Rounded binary32 (dd / Rounded binary32 p1) * a))"
      by (rule step)
    then have "scale (Rounded binary32 p2) \<le> scale (Rounded binary32 p1)"
      unfolding scale_def by (rule ceiling_mono)
    with f1 f2 nonneg [of "Rounded binary32 p2"] show ?thesis by simp
  qed
qed

section \<open>The major interval and the minor divisions\<close>

lemma Rounded32_of_int_bounds:
  assumes "0 \<le> n" and "n \<le> 2 ^ 31"
  shows "0 \<le> Rounded binary32 (of_int n)" and "Rounded binary32 (of_int n) \<le> 2147483648"
proof -
  from assms(1) have n: "0 \<le> real_of_int n" by simp
  then show "0 \<le> Rounded binary32 (of_int n)" by (rule Rounded_nonneg)
  from assms(2) have "real_of_int n \<le> real_of_int (2 ^ 31)"
    by (simp only: of_int_le_iff)
  then have "real_of_int n \<le> 2147483648" by simp
  with n have "Rounded binary32 (of_int n) \<le> Rounded binary32 2147483648"
    by - (rule Rounded_mono, simp_all add: binary32_simps)
  then show "Rounded binary32 (of_int n) \<le> 2147483648"
    unfolding Rounded32_two_31 .
qed

lemma Rounded32_of_int_ge_one:
  assumes "1 \<le> n"
  shows "1 \<le> Rounded binary32 (of_int n)"
proof -
  from assms have "1 \<le> real_of_int n" by simp
  then have "Rounded binary32 1 \<le> Rounded binary32 (of_int n)"
    by - (rule Rounded_mono, simp_all add: binary32_simps)
  then show ?thesis
    unfolding Rounded32_one .
qed

lemma CeiledQuotient_zero: "CeiledQuotient 0 B = 0"
  by (simp add: CeiledQuotient_def Rounded_zero)

lemma CeiledQuotient_mono:
  assumes "0 \<le> s" and "s \<le> s'" and "0 < B"
  shows "CeiledQuotient s B \<le> CeiledQuotient s' B"
proof -
  from assms(3) have B: "1 \<le> Rounded binary32 (of_int B)"
    by (intro Rounded32_of_int_ge_one) simp
  from assms(1) have s: "0 \<le> Rounded binary32 (of_int s)"
    by (intro Rounded_nonneg) simp
  from assms(1,2) have "Rounded binary32 (of_int s) \<le> Rounded binary32 (of_int s')"
    by - (rule Rounded_mono, simp_all add: binary32_simps)
  with B have "Rounded binary32 (of_int s) / Rounded binary32 (of_int B)
      \<le> Rounded binary32 (of_int s') / Rounded binary32 (of_int B)"
    by (simp add: divide_right_mono)
  moreover from s B have "0 \<le> Rounded binary32 (of_int s) / Rounded binary32 (of_int B)"
    by simp
  ultimately have "Rounded binary32 (Rounded binary32 (of_int s) / Rounded binary32 (of_int B))
      \<le> Rounded binary32 (Rounded binary32 (of_int s') / Rounded binary32 (of_int B))"
    by - (rule Rounded_mono, simp_all add: binary32_simps)
  then show ?thesis
    unfolding CeiledQuotient_def by (rule ceiling_mono)
qed

lemma CeiledQuotient_ge_one:
  assumes "0 < B" and "B \<le> s"
  shows "1 \<le> CeiledQuotient s B"
proof -
  from assms(1) have B: "1 \<le> Rounded binary32 (of_int B)"
    by (intro Rounded32_of_int_ge_one) simp
  from assms have "Rounded binary32 (of_int B) \<le> Rounded binary32 (of_int s)"
    by - (rule Rounded_mono, simp_all add: binary32_simps)
  with B have "1 \<le> Rounded binary32 (of_int s) / Rounded binary32 (of_int B)"
    by simp
  then have "Rounded binary32 1
      \<le> Rounded binary32 (Rounded binary32 (of_int s) / Rounded binary32 (of_int B))"
    by - (rule Rounded_mono, simp_all add: binary32_simps)
  then have "1 \<le> Rounded binary32 (Rounded binary32 (of_int s) / Rounded binary32 (of_int B))"
    unfolding Rounded32_one .
  then show ?thesis
    unfolding CeiledQuotient_def by (simp add: le_ceiling_iff)
qed

text \<open>A positive scale that does not exceed the base gives the base itself.\<close>

lemma CeiledQuotient_within:
  assumes "0 < s" and "s \<le> B" and "B \<le> 2 ^ 31"
  shows "CeiledQuotient s B = 1"
proof -
  let ?q = "Rounded binary32 (of_int s) / Rounded binary32 (of_int B)"
  from assms(1) have s: "1 \<le> Rounded binary32 (of_int s)"
    by (intro Rounded32_of_int_ge_one) simp
  from assms(1,2) have sB: "Rounded binary32 (of_int s) \<le> Rounded binary32 (of_int B)"
    by - (rule Rounded_mono, simp_all add: binary32_simps)
  from assms have "0 \<le> B" by simp
  from Rounded32_of_int_bounds(2) [OF this assms(3)]
  have B: "Rounded binary32 (of_int B) \<le> 2147483648" .
  from s sB have Bpos: "0 < Rounded binary32 (of_int B)" by simp
  have hi: "?q \<le> 1"
    using sB Bpos by simp
  have q0: "0 \<le> ?q"
    using s Bpos by simp
  have "1 / 2147483648 \<le> 1 / Rounded binary32 (of_int B)"
    using B Bpos by (simp add: frac_le)
  also have "\<dots> \<le> ?q"
    using s Bpos by (simp add: divide_right_mono)
  finally have lo: "1 / 2147483648 \<le> ?q" .
  from lo have "Rounded binary32 (1 / 2147483648) \<le> Rounded binary32 ?q"
    by - (rule Rounded_mono, simp_all add: binary32_simps)
  then have "0 < Rounded binary32 ?q"
    unfolding Rounded32_two_minus_31 by simp
  moreover from q0 hi have "Rounded binary32 ?q \<le> Rounded binary32 1"
    by - (rule Rounded_mono, simp_all add: binary32_simps)
  then have "Rounded binary32 ?q \<le> 1"
    unfolding Rounded32_one .
  ultimately have "\<lceil>Rounded binary32 ?q\<rceil> = 1"
    by (intro ceiling_unique) simp_all
  then show ?thesis
    by (simp add: CeiledQuotient_def)
qed

text \<open>The index the search returns does not go down when the value goes up.\<close>

lemma LowerBound_mono:
  assumes "sorted xs" and "s \<le> s'"
  shows "LowerBound xs s \<le> LowerBound xs (s' :: int)"
proof (rule ccontr)
  assume "\<not> LowerBound xs s \<le> LowerBound xs s'"
  then have l: "LowerBound xs s' < LowerBound xs s" by simp
  from LowerBound_is_lower_bound [OF assms(1), of s] l
  have a: "xs ! LowerBound xs s' < s" and n: "LowerBound xs s' < length xs"
    unfolding is_lower_bound_def by auto
  from LowerBound_is_lower_bound [OF assms(1), of s'] n
  have "\<not> xs ! LowerBound xs s' < s'"
    unfolding is_lower_bound_def by auto
  with a assms(2) show False by simp
qed

text \<open>
  On ascending positive bases the major interval in frames does not go down when a
  scale that is not negative goes up.
\<close>

lemma MajorFramesOf_mono:
  assumes srt: "sorted cb" and ne: "cb \<noteq> []" and pos: "\<forall>x\<in>set cb. 0 < x \<and> x \<le> 2 ^ 31"
    and s0: "0 \<le> s" and le: "s \<le> s'"
  shows "MajorFramesOf cb s \<le> MajorFramesOf cb s'"
proof -
  define n where "n = length cb"
  define l where "l = LowerBound cb s"
  define l' where "l' = LowerBound cb s'"
  define i where "i = min l (n - 1)"
  define i' where "i' = min l' (n - 1)"
  have n: "0 < n" using ne by (simp add: n_def)
  have ll: "l \<le> l'"
    unfolding l_def l'_def using srt le by (rule LowerBound_mono)
  then have ii: "i \<le> i'" by (simp add: i_def i'_def min_def)
  have in_range: "i < n" "i' < n"
    using n by (simp_all add: i_def i'_def)
  then have B: "0 < cb ! i" "cb ! i \<le> 2 ^ 31" and B': "0 < cb ! i'" "cb ! i' \<le> 2 ^ 31"
    using pos by (simp_all add: n_def)
  have M: "MajorFramesOf cb s = CeiledQuotient s (cb ! i) * cb ! i"
    and M': "MajorFramesOf cb s' = CeiledQuotient s' (cb ! i') * cb ! i'"
    by (simp_all add: MajorFramesOf_def Let_def i_def i'_def l_def l'_def n_def)
  show ?thesis
  proof (cases "i = i'")
    case True
    from CeiledQuotient_mono [OF s0 le B(1)] B(1)
    have "CeiledQuotient s (cb ! i) * cb ! i \<le> CeiledQuotient s' (cb ! i) * cb ! i"
      by (simp add: mult_right_mono)
    with M M' True show ?thesis by simp
  next
    case False
    with ii have lt: "i < i'" by simp
    with in_range have "i < n - 1" by simp
    then have il: "i = l" by (simp add: i_def min_def split: if_splits)
    from LowerBound_is_lower_bound [OF srt, of s] in_range(1)
    have sB: "s \<le> cb ! i"
      unfolding is_lower_bound_def l_def [symmetric] il n_def by auto
    from lt have "i < l'" by (simp add: i'_def)
    with LowerBound_is_lower_bound [OF srt, of s']
    have Bs': "cb ! i < s'"
      unfolding is_lower_bound_def l'_def [symmetric] by auto
    from srt lt in_range(2) have BB': "cb ! i \<le> cb ! i'"
      by (intro sorted_nth_mono) (simp_all add: n_def)
    have low: "MajorFramesOf cb s \<le> cb ! i"
    proof (cases "0 < s")
      case True
      from CeiledQuotient_within [OF True sB B(2)] show ?thesis
        unfolding M by simp
    next
      case False
      with s0 have "s = 0" by simp
      with B(1) show ?thesis
        unfolding M by (simp add: CeiledQuotient_zero)
    qed
    have "1 \<le> CeiledQuotient s' (cb ! i')"
    proof (cases "s' \<le> cb ! i'")
      case True
      from B(1) Bs' have "0 < s'" by simp
      from CeiledQuotient_within [OF this True B'(2)] show ?thesis by simp
    next
      case False
      then have "cb ! i' \<le> s'" by simp
      with B'(1) show ?thesis by (rule CeiledQuotient_ge_one)
    qed
    with B'(1) have "1 * cb ! i' \<le> CeiledQuotient s' (cb ! i') * cb ! i'"
      by (intro mult_right_mono) simp_all
    then have "cb ! i' \<le> MajorFramesOf cb s'"
      unfolding M' by simp
    with low BB' show ?thesis by simp
  qed
qed

text \<open>
  For a scale that is not negative and a positive base the product the source computes
  is the number above, where it has a value.
\<close>

lemma CeiledMultiple_value:
  assumes S: "0 \<le> S" "S < 2 ^ 31" and B: "0 < B" "B < 2 ^ 31"
    and M: "CeiledMultiple S B = Some M"
  shows "M = CeiledQuotient S B * B"
proof -
  from S have Sb: "0 \<le> Rounded binary32 (of_int S)" "Rounded binary32 (of_int S) \<le> 2147483648"
    by (simp_all add: Rounded32_of_int_bounds)
  from B have Bb: "Rounded binary32 (of_int B) \<le> 2147483648"
    and B1: "1 \<le> Rounded binary32 (of_int B)"
    by (simp_all add: Rounded32_of_int_bounds Rounded32_of_int_ge_one)
  have big: "(2147483648 :: real) < 2 powi 128" by simp
  from Sb big have rS: "Round binary32 (of_int S) = Finite (Rounded binary32 (of_int S))"
    by (simp add: Round_def binary32_simps)
  from Bb B1 big have rB: "Round binary32 (of_int B) = Finite (Rounded binary32 (of_int B))"
    by (simp add: Round_def binary32_simps)
  let ?q = "Rounded binary32 (of_int S) / Rounded binary32 (of_int B)"
  from Sb B1 have q0: "0 \<le> ?q" by simp
  have "?q \<le> Rounded binary32 (of_int S) / 1"
    using Sb(1) B1 by (intro divide_left_mono) simp_all
  with Sb(2) have q1: "?q \<le> 2147483648" by simp
  from q0 have "0 \<le> Rounded binary32 ?q" by (rule Rounded_nonneg)
  moreover from q0 q1 have "Rounded binary32 ?q \<le> Rounded binary32 2147483648"
    by - (rule Rounded_mono, simp_all add: binary32_simps)
  ultimately have "\<bar>Rounded binary32 ?q\<bar> < 2 powi 128"
    unfolding Rounded32_two_31 using big by simp
  then have rq: "Round binary32 ?q = Finite (Rounded binary32 ?q)"
    by (simp add: Round_def binary32_simps)
  from B1 have "Rounded binary32 (of_int B) \<noteq> 0" by simp
  then have "ieee_div binary32 (Round binary32 (of_int S)) (Round binary32 (of_int B))
      = Finite (Rounded binary32 ?q)"
    unfolding rS rB by (simp add: ieee_div_def rq)
  with M show ?thesis
    by (auto simp: CeiledMultiple_def CeilToInt_Finite CeiledQuotient_def int32_mul_def
        int32_Some_iff split: option.splits)
qed

lemma CeiledMultiple_dvd:
  assumes "CeiledMultiple S B = Some M"
  shows "B dvd M"
  using assms
  by (auto simp: CeiledMultiple_def int32_mul_def int32_Some_iff split: option.splits)

lemma smod_zero_dvd:
  assumes "a smod b = 0"
  shows "b dvd (a :: int)"
proof (cases "a = 0")
  case True
  then show ?thesis by simp
next
  case False
  with assms have "\<bar>a\<bar> mod \<bar>b\<bar> = 0"
    by (simp add: signed_modulo_int_def sgn_if split: if_splits)
  then have "\<bar>b\<bar> dvd \<bar>a\<bar>" by auto
  then show ?thesis by simp
qed

text \<open>The divisions found divide the major interval in frames.\<close>

lemma FindMinorDivisions_dvd:
  assumes "FindMinorDivisions Base Major I pps m cs out = Some k"
    and "Base dvd Major" and "out dvd Major"
  shows "k dvd Major"
  using assms(1)
proof (induction cs)
  case Nil
  with assms(3) show ?case by simp
next
  case (Cons c cs)
  from Cons.prems obtain r where r: "int32_mod Base c = Some r"
    by (auto split: option.splits)
  show ?case
  proof (cases "r = 0")
    case True
    with r have "Base smod c = 0"
      by (simp add: int32_mod_def split: if_splits)
    then have "c dvd Base" by (rule smod_zero_dvd)
    from this assms(2) have cM: "c dvd Major" by (rule dvd_trans)
    then have q: "Major sdiv c = Major div c" by (rule sdiv_dvd)
    from cM have d: "Major div c dvd Major"
      by (metis dvd_div_mult_self dvd_triv_left)
    from Cons.prems r True obtain md where md: "int32_div Major c = Some md"
      by (auto split: option.splits)
    then have "md = Major div c"
      using q by (simp add: int32_div_def int32_Some_iff split: if_splits)
    with d have mdv: "md dvd Major" by simp
    from Cons.prems r True md
    have "k = md \<or> FindMinorDivisions Base Major I pps m cs out = Some k"
      by (auto split: if_splits)
    with mdv Cons.IH show ?thesis by blast
  next
    case False
    with Cons.prems r have "FindMinorDivisions Base Major I pps m cs out = Some k"
      by simp
    then show ?thesis by (rule Cons.IH)
  qed
qed

lemma common_bases_ascending:
  assumes "0 < fps"
  shows "\<exists>cb. CommonBasesLoop fps [] = Some (rev cb) \<and> sorted cb \<and> cb \<noteq> []
    \<and> (\<forall>x\<in>set cb. 0 < x \<and> x \<le> fps)"
proof -
  from CommonBasesLoop_positive [OF assms, of "[]"]
  obtain ds where l: "CommonBasesLoop fps [] = Some (fps # ds)"
    and s: "sorted_wrt (\<lambda>x y. y < x) ds" and p: "\<forall>d\<in>set ds. 0 < d \<and> d < fps"
    by auto
  from s p have "sorted_wrt (\<lambda>x y. y < x) (fps # ds)" by simp
  then have "sorted_wrt (\<lambda>x y. x < y) (rev (fps # ds))"
    by (simp only: sorted_wrt_rev)
  then have "sorted (rev (fps # ds))"
    by (rule sorted_wrt_mono_rel [rotated]) simp
  moreover from p assms have "\<forall>x\<in>set (rev (fps # ds)). 0 < x \<and> x \<le> fps" by auto
  moreover from l have "CommonBasesLoop fps [] = Some (rev (rev (fps # ds)))" by simp
  ultimately show ?thesis
    by (intro exI [of _ "rev (fps # ds)"]) simp
qed

text \<open>What a returned result was computed from.\<close>

lemma GridFromBases_SomeD:
  assumes "GridFromBases r P M D cb = Some g"
  shows "\<exists>S. ScaleOf r D P = Some S
    \<and> CeiledMultiple S (cb ! min (LowerBound cb S) (length cb - 1)) = Some (MajorIntervalFrames g)
    \<and> FindMinorDivisions (cb ! min (LowerBound cb S) (length cb - 1)) (MajorIntervalFrames g)
        (OutMajorInterval g) P M (take (min (LowerBound cb S) (length cb - 1)) cb)
        (MajorIntervalFrames g) = Some (OutMinorDivisions g)"
  using assms by (auto simp: GridFromBases_def Let_def split: option.splits)

lemma ComputeGridSpacing_ReturnsD:
  assumes "ComputeGridSpacing r P M D = Returns g"
  shows "\<exists>n Added. RoundFrameRate r = Some n \<and> CommonBasesLoop n [] = Some Added
    \<and> GridFromBases r (ieee_convert binary32 P) (ieee_convert binary32 M)
        (ieee_convert binary32 D) (rev Added) = Some g"
  using assms by (auto simp: ComputeGridSpacing_def split: option.splits)

lemma ComputeGridSpacing_divides:
  assumes "ComputeGridSpacing r P M D = Returns g"
  shows "OutMinorDivisions g dvd MajorIntervalFrames g"
proof -
  from ComputeGridSpacing_ReturnsD [OF assms]
  obtain Added where "GridFromBases r (ieee_convert binary32 P) (ieee_convert binary32 M)
        (ieee_convert binary32 D) (rev Added) = Some g"
    by blast
  from GridFromBases_SomeD [OF this]
  obtain S where
    m: "CeiledMultiple S (rev Added ! min (LowerBound (rev Added) S) (length (rev Added) - 1))
        = Some (MajorIntervalFrames g)"
    and f: "FindMinorDivisions (rev Added ! min (LowerBound (rev Added) S) (length (rev Added) - 1))
        (MajorIntervalFrames g) (OutMajorInterval g) (ieee_convert binary32 P)
        (ieee_convert binary32 M)
        (take (min (LowerBound (rev Added) S) (length (rev Added) - 1)) (rev Added))
        (MajorIntervalFrames g) = Some (OutMinorDivisions g)"
    by blast
  from f CeiledMultiple_dvd [OF m] show ?thesis
    by (rule FindMinorDivisions_dvd) simp
qed

lemma ComputeGridSpacing_antitone:
  assumes rate: "RoundFrameRate r = Some n" and n: "0 < n"
    and d: "0 \<le> d" and p1: "0 < p1" and p12: "p1 \<le> p2"
    and g1: "ComputeGridSpacing r (Finite p1) m (Finite d) = Returns g1"
    and g2: "ComputeGridSpacing r (Finite p2) m (Finite d) = Returns g2"
  shows "MajorIntervalFrames g2 \<le> MajorIntervalFrames g1"
proof -
  from common_bases_ascending [OF n]
  obtain cb where loop: "CommonBasesLoop n [] = Some (rev cb)"
    and srt: "sorted cb" and ne: "cb \<noteq> []" and pos: "\<forall>x\<in>set cb. 0 < x \<and> x \<le> n"
    by blast
  from RoundFrameRate_range [OF rate] pos have bound: "\<forall>x\<in>set cb. 0 < x \<and> x < 2 ^ 31"
    by auto
  then have bound': "\<forall>x\<in>set cb. 0 < x \<and> x \<le> 2 ^ 31"
    by auto
  from RoundFrameRate_positive [OF rate n]
  obtain a where a: "AsDecimal r = Finite a" and a0: "0 < a"
    by blast
  let ?i = "\<lambda>S. min (LowerBound cb S) (length cb - 1)"
  have major: "\<exists>S. ScaleOf r (ieee_convert binary32 (Finite d)) (ieee_convert binary32 (Finite p)) = Some S
      \<and> CeiledMultiple S (cb ! ?i S) = Some (MajorIntervalFrames g)"
    if "ComputeGridSpacing r (Finite p) m (Finite d) = Returns g" for p g
  proof -
    from ComputeGridSpacing_ReturnsD [OF that] rate loop
    have "GridFromBases r (ieee_convert binary32 (Finite p)) (ieee_convert binary32 m)
        (ieee_convert binary32 (Finite d)) cb = Some g"
      by auto
    from GridFromBases_SomeD [OF this] show ?thesis by blast
  qed
  from major [OF g1] obtain S1
    where s1: "ScaleOf r (ieee_convert binary32 (Finite d)) (ieee_convert binary32 (Finite p1)) = Some S1"
      and m1: "CeiledMultiple S1 (cb ! ?i S1) = Some (MajorIntervalFrames g1)"
    by blast
  from major [OF g2] obtain S2
    where s2: "ScaleOf r (ieee_convert binary32 (Finite d)) (ieee_convert binary32 (Finite p2)) = Some S2"
      and m2: "CeiledMultiple S2 (cb ! ?i S2) = Some (MajorIntervalFrames g2)"
    by blast
  from ScaleOf_antitone [OF s1 s2 a a0 d p1 p12] have S2: "0 \<le> S2" and S21: "S2 \<le> S1"
    by simp_all
  then have S1: "0 \<le> S1" by simp
  have range: "S < 2 ^ 31"
    if "ScaleOf r (ieee_convert binary32 (Finite d)) (ieee_convert binary32 (Finite p)) = Some S"
    for p S
    using CeilToInt_SomeD [OF that [unfolded ScaleOf_def]] by blast
  have base: "0 < cb ! ?i S \<and> cb ! ?i S < 2 ^ 31" for S
  proof -
    from ne have "length cb - 1 < length cb" by (cases cb) simp_all
    then have "?i S < length cb" by (simp add: min_less_iff_disj)
    with bound show ?thesis by simp
  qed
  have M1: "MajorIntervalFrames g1 = MajorFramesOf cb S1"
    using CeiledMultiple_value [OF S1 range [OF s1] _ _ m1] base [of S1]
    by (simp add: MajorFramesOf_def Let_def)
  have M2: "MajorIntervalFrames g2 = MajorFramesOf cb S2"
    using CeiledMultiple_value [OF S2 range [OF s2] _ _ m2] base [of S2]
    by (simp add: MajorFramesOf_def Let_def)
  show ?thesis
    unfolding M1 M2 using srt ne bound' S2 S21 by (rule MajorFramesOf_mono)
qed

text \<open>
  Claim C7, as amended. The minor divisions of every result that \<open>ComputeGridSpacing\<close>
  returns divide its major interval in frames. The frame rate rounds to a positive
  integer, the desired width of a major tick is not negative and the pixels per second
  are positive: then, of two calls that return a result, the one with more pixels per
  second does not return the larger major interval in frames. A call returns a result
  where the conversions to \<open>int32\<close> and the \<open>int32\<close> product have a value.
\<close>

theorem ComputeGridSpacing_antitone_and_divides:
  "(ComputeGridSpacing InFrameRate PixelsPerSecond MinTickPx DesiredMajorTickPx = Returns Grid \<longrightarrow>
      OutMinorDivisions Grid dvd MajorIntervalFrames Grid)
   \<and> (RoundFrameRate InFrameRate = Some RoundedFPS \<longrightarrow> 0 < RoundedFPS \<longrightarrow>
      0 \<le> Desired \<longrightarrow> 0 < PixelsPerSecond1 \<longrightarrow> PixelsPerSecond1 \<le> PixelsPerSecond2 \<longrightarrow>
      ComputeGridSpacing InFrameRate (Finite PixelsPerSecond1) MinTickPx (Finite Desired)
        = Returns Grid1 \<longrightarrow>
      ComputeGridSpacing InFrameRate (Finite PixelsPerSecond2) MinTickPx (Finite Desired)
        = Returns Grid2 \<longrightarrow>
      MajorIntervalFrames Grid2 \<le> MajorIntervalFrames Grid1)"
  using ComputeGridSpacing_divides ComputeGridSpacing_antitone by blast

section \<open>Runs at thirty frames per second\<close>

text \<open>The roundings that the runs below go through.\<close>

lemma Round64_thirtieth: "Round binary64 (1 / 30) = Finite (4803839602528529 / 144115188075855872)"
  by (rule Round_evalI [where e = "- 5" and n = "4803839602528529" and u = "1 / 144115188075855872"])
    (simp_all add: binary64_simps power_int_minus RoundHalfEven_def)

lemma Round64_sixth: "Round binary64 (1 / 6) = Finite (6004799503160661 / 36028797018963968)"
  by (rule Round_evalI [where e = "- 3" and n = "6004799503160661" and u = "1 / 36028797018963968"])
    (simp_all add: binary64_simps power_int_minus RoundHalfEven_def)

lemma Round64_30_thirtieths: "Round binary64 (72057594037927935 / 72057594037927936) = Finite 1"
  by (rule Round_evalI [where e = "- 1" and n = "9007199254740992" and u = "1 / 9007199254740992"])
    (simp_all add: binary64_simps power_int_minus RoundHalfEven_def)

lemma Round64_15_thirtieths: "Round binary64 (72057594037927935 / 144115188075855872) = Finite (1 / 2)"
  by (rule Round_evalI [where e = "- 2" and n = "9007199254740992" and u = "1 / 18014398509481984"])
    (simp_all add: binary64_simps power_int_minus RoundHalfEven_def)

lemma Round64_minus_1800_thirtieths: "Round binary64 (- (1080863910568919025 / 18014398509481984)) = Finite (- 60)"
  by (rule Round_evalI [where e = "5" and n = "- 8444249301319680" and u = "1 / 140737488355328"])
    (simp_all add: binary64_simps power_int_minus RoundHalfEven_def)

lemma Round64_minus_900_thirtieths: "Round binary64 (- (1080863910568919025 / 36028797018963968)) = Finite (- 30)"
  by (rule Round_evalI [where e = "4" and n = "- 8444249301319680" and u = "1 / 281474976710656"])
    (simp_all add: binary64_simps power_int_minus RoundHalfEven_def)

lemma Round64_64_thirtieths: "Round binary64 (4803839602528529 / 2251799813685248) = Finite (4803839602528529 / 2251799813685248)"
  using Round_exact [of "4803839602528529 / 2251799813685248" "4803839602528529" "- 51" binary64]
  by (simp add: binary64_simps power_int_minus)

lemma Round64_128_thirtieths: "Round binary64 (4803839602528529 / 1125899906842624) = Finite (4803839602528529 / 1125899906842624)"
  using Round_exact [of "4803839602528529 / 1125899906842624" "4803839602528529" "- 50" binary64]
  by (simp add: binary64_simps power_int_minus)

lemma Round64_64_sixths: "Round binary64 (6004799503160661 / 562949953421312) = Finite (6004799503160661 / 562949953421312)"
  using Round_exact [of "6004799503160661 / 562949953421312" "6004799503160661" "- 49" binary64]
  by (simp add: binary64_simps power_int_minus)

lemma Round32_small:
  "Round binary32 1 = Finite 1" "Round binary32 2 = Finite 2" "Round binary32 4 = Finite 4"
  "Round binary32 15 = Finite 15" "Round binary32 64 = Finite 64"
  "Round binary32 128 = Finite 128" "Round binary32 (- 30) = Finite (- 30)"
  "Round binary32 (- 60) = Finite (- 60)" "Round binary32 (- 900) = Finite (- 900)"
  "Round binary32 (- 1800) = Finite (- 1800)"
  using Round32_int [of 1] Round32_int [of 2] Round32_int [of 4] Round32_int [of 15]
    Round32_int [of 64] Round32_int [of 128] Round32_int [of "- 30"] Round32_int [of "- 60"]
    Round32_int [of "- 900"] Round32_int [of "- 1800"]
  by simp_all

lemma Round64_small:
  "Round binary64 15 = Finite 15" "Round binary64 30 = Finite 30"
  "Round binary64 (- 900) = Finite (- 900)" "Round binary64 (- 1800) = Finite (- 1800)"
  using Round64_int [of 15] Round64_int [of 30] Round64_int [of "- 900"]
    Round64_int [of "- 1800"]
  by simp_all

lemma Round32_half: "Round binary32 (1 / 2) = Finite (1 / 2)"
  using Round_exact [of "1 / 2" 1 "- 1" binary32] by (simp add: binary32_simps power_int_minus)

lemma AsInterval_fps30: "AsInterval fps30 = Finite (4803839602528529 / 144115188075855872)"
  by (simp add: AsInterval_def fps30_def ieee_div_def Round64_thirtieth)

lemma bases_30_search:
  "LowerBound [1, 5, 15, 30 :: int] 30 = 3" "LowerBound [1, 5, 15, 30 :: int] 15 = 2"
  "LowerBound [1, 5, 15, 30 :: int] (- 900) = 0" "LowerBound [1, 5, 15, 30 :: int] (- 1800) = 0"
  by code_simp+

lemmas run_simps = ComputeGridSpacing_def RoundFrameRate_fps30 CommonBasesLoop_30
  GridFromBases_def ScaleOf_def CeiledMultiple_def Let_def AsDecimal_fps30 AsInterval_fps30
  ieee_convert_def ieee_div_def ieee_mul_def ieee_ge_def ieee_ne_def CeilToInt_Finite
  int32_def int32_mul_def int32_div_def int32_mod_def signed_divide_int_def
  signed_modulo_int_def bases_30_search Round32_small Round64_small Round32_30 Round32_half
  Round64_thirtieth Round64_sixth Round64_30_thirtieths Round64_15_thirtieths
  Round64_minus_1800_thirtieths Round64_minus_900_thirtieths Round64_64_thirtieths
  Round64_128_thirtieths Round64_64_sixths

lemma grid_30_at_64:
  "ComputeGridSpacing fps30 (Finite 64) (Finite 4) (Finite 64) =
     Returns \<lparr>Succeeded = True, OutMajorInterval = Finite 1, OutMinorDivisions = 6,
       MajorIntervalFrames = 30\<rparr>"
  by (simp add: run_simps)

lemma grid_30_at_128:
  "ComputeGridSpacing fps30 (Finite 128) (Finite 4) (Finite 64) =
     Returns \<lparr>Succeeded = True, OutMajorInterval = Finite (1 / 2), OutMinorDivisions = 15,
       MajorIntervalFrames = 15\<rparr>"
  by (simp add: run_simps)

theorem ComputeGridSpacing_antitone_and_divides_witness:
  "RoundFrameRate fps30 = Some 30 \<and> (0 :: int) < 30
   \<and> (0 :: real) \<le> 64 \<and> (0 :: real) < 64 \<and> (64 :: real) \<le> 128
   \<and> ComputeGridSpacing fps30 (Finite 64) (Finite 4) (Finite 64) =
       Returns \<lparr>Succeeded = True, OutMajorInterval = Finite 1, OutMinorDivisions = 6,
         MajorIntervalFrames = 30\<rparr>
   \<and> ComputeGridSpacing fps30 (Finite 128) (Finite 4) (Finite 64) =
       Returns \<lparr>Succeeded = True, OutMajorInterval = Finite (1 / 2), OutMinorDivisions = 15,
         MajorIntervalFrames = 15\<rparr>
   \<and> MajorIntervalFrames \<lparr>Succeeded = True, OutMajorInterval = Finite (1 / 2),
         OutMinorDivisions = 15, MajorIntervalFrames = 15\<rparr>
       \<le> MajorIntervalFrames \<lparr>Succeeded = True, OutMajorInterval = Finite 1,
         OutMinorDivisions = 6, MajorIntervalFrames = 30\<rparr>
   \<and> OutMinorDivisions \<lparr>Succeeded = True, OutMajorInterval = Finite 1,
         OutMinorDivisions = 6, MajorIntervalFrames = 30\<rparr>
       dvd MajorIntervalFrames \<lparr>Succeeded = True, OutMajorInterval = Finite 1,
         OutMinorDivisions = 6, MajorIntervalFrames = 30\<rparr>"
proof -
  let ?g1 = "\<lparr>Succeeded = True, OutMajorInterval = Finite 1, OutMinorDivisions = 6,
         MajorIntervalFrames = 30\<rparr>"
  let ?g2 = "\<lparr>Succeeded = True, OutMajorInterval = Finite (1 / 2), OutMinorDivisions = 15,
         MajorIntervalFrames = 15\<rparr>"
  note inst = ComputeGridSpacing_antitone_and_divides
    [of fps30 "Finite 64" "Finite 4" "Finite 64" ?g1 30 64 64 128 ?g1 ?g2]
  from inst grid_30_at_64 have "OutMinorDivisions ?g1 dvd MajorIntervalFrames ?g1"
    by blast
  moreover
  have "(0 :: real) \<le> 64" "(0 :: real) < 64" "(64 :: real) \<le> 128" "(0 :: int) < 30"
    by simp_all
  with inst RoundFrameRate_fps30 grid_30_at_64 grid_30_at_128
  have "MajorIntervalFrames ?g2 \<le> MajorIntervalFrames ?g1"
    by blast
  ultimately show ?thesis
    using RoundFrameRate_fps30 grid_30_at_64 grid_30_at_128 by simp
qed

text \<open>
  The claim as it was stated holds for every desired width and every number of pixels
  per second. With a desired width of \<open>- 60\<close>, one pixel per second gives a major
  interval of \<open>- 1800\<close> frames and two pixels per second give \<open>- 900\<close> frames, which
  is more. And with \<open>2 ^ - 40\<close> pixels per second and a desired width of 64 the scale
  goes past the range of \<open>int32\<close>: the conversion has no value, and no major interval
  is returned to compare.
\<close>

lemma Round_past_int32:
  "Round binary32 (1 / 1099511627776) = Finite (1 / 1099511627776)"
  "Round binary32 70368744177664 = Finite 70368744177664"
  "Round binary64 2111062325329920 = Finite 2111062325329920"
  "Round binary32 2111062325329920 = Finite 2111062325329920"
  using Round_exact [of "1 / 1099511627776" 1 "- 40" binary32]
    Round_exact [of 70368744177664 1 46 binary32]
    Round_exact [of 2111062325329920 15 47 binary64]
    Round_exact [of 2111062325329920 15 47 binary32]
  by (simp_all add: binary32_simps binary64_simps power_int_minus)

theorem ComputeGridSpacing_antitone_counterexample:
  "ComputeGridSpacing fps30 (Finite 1) (Finite 4) (Finite (- 60)) =
     Returns \<lparr>Succeeded = True, OutMajorInterval = Finite (- 60), OutMinorDivisions = - 1800,
       MajorIntervalFrames = - 1800\<rparr>
   \<and> ComputeGridSpacing fps30 (Finite 2) (Finite 4) (Finite (- 60)) =
     Returns \<lparr>Succeeded = True, OutMajorInterval = Finite (- 30), OutMinorDivisions = - 900,
       MajorIntervalFrames = - 900\<rparr>
   \<and> (- 1800 :: int) < - 900
   \<and> ComputeGridSpacing fps30 (Finite (1 / 1099511627776)) (Finite 4) (Finite 64) = Undefined"
  by (simp add: run_simps Round_past_int32)

end
